theory Spec2Isabelle
  imports
    Complex_Main
    "HOL-Library.AList"
    "HOL-Library.Char_ord"
    "HOL-Library.List_Lexorder"
    "HOL-Library.Log_Nat"
    "HOL-Library.Multiset"
    "HOL-Library.Word"
begin

unbundle bit_operations_syntax

section \<open>Binary floating point\<close>

text \<open>
  A Python \<open>float\<close> is an IEEE 754 binary64 number: a significand of 53 bits and a power
  of two. Every arithmetic operation on floats gives the number of this form that is nearest
  to the exact result, a tie going to the even significand. The model keeps exactly this:
  a float is the rational number it denotes, and \<open>fl\<close> rounds a rational to 53 significant
  bits. The exponent is not bounded in the model, so overflow to \<open>inf\<close>, \<open>nan\<close>, the
  loss of precision of subnormal numbers (below \<open>2 ^ -1022\<close>) and the \<open>OverflowError\<close>
  of an \<open>int\<close> beyond the range of the floats are outside it.

  \<open>round_half_even\<close> is the nearest integer, ties to even. \<open>expo x\<close> is the exponent
  \<open>e\<close> of the binade of \<open>x\<close>, with \<open>2 ^ e \<le> \<bar>x\<bar> < 2 ^ (e + 1)\<close>.
\<close>

definition round_half_even :: "rat \<Rightarrow> int" where
  "round_half_even y =
     (let f = \<lfloor>y\<rfloor>; d = y - of_int f
      in if d < 1 / 2 then f else if 1 / 2 < d then f + 1 else if even f then f else f + 1)"

definition expo :: "rat \<Rightarrow> int" where
  "expo x =
     (let p = fst (quotient_of \<bar>x\<bar>); q = snd (quotient_of \<bar>x\<bar>); d = bitlen p - bitlen q
      in if 2 powi d \<le> \<bar>x\<bar> then d else d - 1)"

definition fl :: "rat \<Rightarrow> rat" where
  "fl x =
     (if x = 0 then 0
      else of_int (round_half_even (x / 2 powi (expo x - 52))) * 2 powi (expo x - 52))"

text \<open>The floats are the numbers that rounding leaves as they are.\<close>

typedef double = "{x :: rat. fl x = x}"
  morphisms dval Abs_double
  by (rule exI [of _ 0]) (simp add: fl_def)

text \<open>
  The float nearest to a rational: the value of a decimal literal such as \<open>0.01\<close>, of
  \<open>float(i)\<close> for an \<open>int\<close>, and of the result of an operation.
\<close>

definition double_of :: "rat \<Rightarrow> double" where
  "double_of x = Abs_double (fl x)"

text \<open>Two floats are equal when they denote the same number.\<close>

instantiation double :: equal
begin

definition equal_double :: "double \<Rightarrow> double \<Rightarrow> bool" where
  "equal_double a b \<longleftrightarrow> dval a = dval b"

instance
  by standard (simp add: equal_double_def dval_inject)

end

section \<open>Python values, numbers and exceptions\<close>

text \<open>
  A number is an \<open>int\<close>, which is unbounded and exact, or a \<open>float\<close>. \<open>nval\<close> is the
  value of a number; the comparisons of Python compare these values exactly, also between an
  \<open>int\<close> and a \<open>float\<close>.
\<close>

datatype pynum = NInt int | NFloat double

fun nval :: "pynum \<Rightarrow> rat" where
  "nval (NInt i) = of_int i"
| "nval (NFloat d) = dval d"

text \<open>The conversion of an operand to \<open>float\<close> when the other operand is one.\<close>

fun to_double :: "pynum \<Rightarrow> double" where
  "to_double (NInt i) = double_of (of_int i)"
| "to_double (NFloat d) = d"

text \<open>
  \<open>+\<close>, \<open>-\<close> and \<open>*\<close>: exact on two \<open>int\<close>s, otherwise both operands are converted
  and the exact result is rounded once.
\<close>

fun py_add :: "pynum \<Rightarrow> pynum \<Rightarrow> pynum" where
  "py_add (NInt i) (NInt j) = NInt (i + j)"
| "py_add x y = NFloat (double_of (dval (to_double x) + dval (to_double y)))"

fun py_sub :: "pynum \<Rightarrow> pynum \<Rightarrow> pynum" where
  "py_sub (NInt i) (NInt j) = NInt (i - j)"
| "py_sub x y = NFloat (double_of (dval (to_double x) - dval (to_double y)))"

fun py_mul :: "pynum \<Rightarrow> pynum \<Rightarrow> pynum" where
  "py_mul (NInt i) (NInt j) = NInt (i * j)"
| "py_mul x y = NFloat (double_of (dval (to_double x) * dval (to_double y)))"

text \<open>
  The quotient of \<open>/\<close>, for a divisor that is not zero: always a \<open>float\<close>; of two
  \<open>int\<close>s it is the exact quotient rounded once.
\<close>

fun quotient :: "pynum \<Rightarrow> pynum \<Rightarrow> pynum" where
  "quotient (NInt i) (NInt j) = NFloat (double_of (of_int i / of_int j))"
| "quotient x y = NFloat (double_of (dval (to_double x) / dval (to_double y)))"

text \<open>\<open>abs(x)\<close> and \<open>-x\<close> are exact.\<close>

fun py_abs :: "pynum \<Rightarrow> pynum" where
  "py_abs (NInt i) = NInt \<bar>i\<bar>"
| "py_abs (NFloat d) = NFloat (double_of \<bar>dval d\<bar>)"

fun py_neg :: "pynum \<Rightarrow> pynum" where
  "py_neg (NInt i) = NInt (- i)"
| "py_neg (NFloat d) = NFloat (double_of (- dval d))"

text \<open>
  \<open>round(x, n)\<close> for \<open>n \<ge> 0\<close>. An \<open>int\<close> is returned as it is. For a \<open>float\<close>,
  CPython takes the decimal with \<open>n\<close> places that is nearest to the exact value of the float
  (a tie, which needs a float that is itself such a half, going to the even digit) and reads
  it back as a float.
\<close>

fun py_round :: "pynum \<Rightarrow> nat \<Rightarrow> pynum" where
  "py_round (NInt i) n = NInt i"
| "py_round (NFloat d) n =
     NFloat (double_of (of_int (round_half_even (dval d * 10 ^ n)) / 10 ^ n))"

text \<open>
  \<open>sum(xs)\<close>: the additions from the \<open>int\<close> 0, from left to right. (CPython from 3.12 on
  carries a compensation term through a sum of floats, which can change the last bits of a
  long sum; on the sums of the examples below the two give the same float.)
\<close>

definition py_sum :: "pynum list \<Rightarrow> pynum" where
  "py_sum xs = foldl py_add (NInt 0) xs"

text \<open>
  The values of the fields of a record: \<open>None\<close>, an \<open>int\<close>, a \<open>float\<close> or a \<open>str\<close>.
  An exception that the source lets escape is the \<open>Inl\<close> branch of a sum type.
\<close>

datatype pyval = PNone | PInt int | PFloat double | PStr string

datatype py_error = KeyError | TypeError | ZeroDivisionError

text \<open>\<open>isinstance(v, (int, float))\<close>, together with the number.\<close>

fun num_val :: "pyval \<Rightarrow> pynum option" where
  "num_val (PInt i) = Some (NInt i)"
| "num_val (PFloat d) = Some (NFloat d)"
| "num_val PNone = None"
| "num_val (PStr s) = None"

text \<open>Python's \<open>/\<close>: a zero divisor raises.\<close>

definition py_div :: "pynum \<Rightarrow> pynum \<Rightarrow> py_error + pynum" where
  "py_div a b = (if nval b = 0 then Inl ZeroDivisionError else Inr (quotient a b))"

text \<open>
  A dict is an association list in insertion order; \<open>map_of\<close> is the lookup,
  \<open>AList.update\<close> is the item assignment \<open>d[k] = v\<close> (in place for a key that is
  there, at the end for a new key).
\<close>

type_synonym cost_record = "(string \<times> pyval) list"

text \<open>\<open>record["amount"]\<close> used as a number in an addition that starts from a number.\<close>

definition amount_of :: "cost_record \<Rightarrow> py_error + pynum" where
  "amount_of c =
     (case map_of c ''amount'' of
        None \<Rightarrow> Inl KeyError
      | Some v \<Rightarrow> (case num_val v of None \<Rightarrow> Inl TypeError | Some x \<Rightarrow> Inr x))"

section \<open>The aggregator (\<open>InvoiceProcessor._aggregate_by_business_unit\<close>)\<close>

record account_data =
  acct_name :: string
  business_unit :: string
  costs :: "cost_record list"

record account_entry =
  entry_id :: string
  entry_name :: string
  entry_total :: pynum

record bu_aggregate =
  total :: pynum
  accounts :: "account_entry list"
  services :: "(pyval \<times> pynum) list"

type_synonym aggregated = "(string \<times> bu_aggregate) list"

definition empty_aggregate :: bu_aggregate where
  "empty_aggregate = \<lparr>total = NInt 0, accounts = [], services = []\<rparr>"

text \<open>
  \<open>sum(cost["amount"] for cost in data["costs"])\<close>, from the accumulator \<open>acc\<close>
  (\<open>sum\<close> starts from the \<open>int\<close> 0).
\<close>

fun sum_amounts :: "pynum \<Rightarrow> cost_record list \<Rightarrow> py_error + pynum" where
  "sum_amounts acc [] = Inr acc"
| "sum_amounts acc (c # cs) =
     (case amount_of c of Inl e \<Rightarrow> Inl e | Inr x \<Rightarrow> sum_amounts (py_add acc x) cs)"

text \<open>\<open>cost.get("service", "Other")\<close>\<close>

definition service_of :: "cost_record \<Rightarrow> pyval" where
  "service_of c = (case map_of c ''service'' of None \<Rightarrow> PStr ''Other'' | Some v \<Rightarrow> v)"

text \<open>\<open>services.get(service, 0)\<close>\<close>

definition get0 :: "('k \<times> pynum) list \<Rightarrow> 'k \<Rightarrow> pynum" where
  "get0 d k = (case map_of d k of None \<Rightarrow> NInt 0 | Some v \<Rightarrow> v)"

text \<open>The inner loop: \<open>services[service] = services.get(service, 0) + cost["amount"]\<close>.\<close>

fun add_services ::
  "(pyval \<times> pynum) list \<Rightarrow> cost_record list \<Rightarrow> py_error + (pyval \<times> pynum) list" where
  "add_services sv [] = Inr sv"
| "add_services sv (c # cs) =
     (case amount_of c of
        Inl e \<Rightarrow> Inl e
      | Inr x \<Rightarrow> add_services (AList.update (service_of c) (py_add (get0 sv (service_of c)) x) sv) cs)"

text \<open>
  One iteration of the outer loop, for the account \<open>account_id\<close> with its \<open>data\<close>. The
  aggregate of the business unit is created empty when the unit is new; writing the changed
  aggregate back with \<open>AList.update\<close> puts a new unit at the end, where the source's
  \<open>aggregated[bu] = {...}\<close> has put it.
\<close>

definition aggregate_account :: "aggregated \<Rightarrow> string \<times> account_data \<Rightarrow> py_error + aggregated" where
  "aggregate_account agg p =
     (let account_id = fst p; data = snd p; bu = business_unit data;
          cur = (case map_of agg bu of None \<Rightarrow> empty_aggregate | Some a \<Rightarrow> a)
      in case sum_amounts (NInt 0) (costs data) of
           Inl e \<Rightarrow> Inl e
         | Inr account_total \<Rightarrow>
             (case add_services (services cur) (costs data) of
                Inl e \<Rightarrow> Inl e
              | Inr sv \<Rightarrow>
                  Inr (AList.update bu
                        \<lparr>total = py_add (total cur) account_total,
                         accounts = accounts cur @
                           [\<lparr>entry_id = account_id, entry_name = acct_name data,
                             entry_total = account_total\<rparr>],
                         services = sv\<rparr> agg)))"

fun aggregate_loop :: "aggregated \<Rightarrow> (string \<times> account_data) list \<Rightarrow> py_error + aggregated" where
  "aggregate_loop agg [] = Inr agg"
| "aggregate_loop agg (p # ps) =
     (case aggregate_account agg p of Inl e \<Rightarrow> Inl e | Inr agg' \<Rightarrow> aggregate_loop agg' ps)"

definition aggregate_by_business_unit :: "(string \<times> account_data) list \<Rightarrow> py_error + aggregated" where
  "aggregate_by_business_unit all_costs = aggregate_loop [] all_costs"


text \<open>
  The two sums that \<open>validate_aggregation\<close> compares with the total,
  \<open>sum(a["total"] for a in bu_data["accounts"])\<close> and
  \<open>sum(bu_data["services"].values())\<close>.
\<close>

definition account_sum :: "bu_aggregate \<Rightarrow> pynum" where
  "account_sum a = py_sum (map entry_total (accounts a))"

definition service_sum :: "bu_aggregate \<Rightarrow> pynum" where
  "service_sum a = py_sum (map snd (services a))"

text \<open>
  The exact value of the amount of a record that has one, and the exact sum of the amounts
  of all records of all accounts.
\<close>

definition amount_val :: "cost_record \<Rightarrow> rat" where
  "amount_val c = (case amount_of c of Inl e \<Rightarrow> 0 | Inr x \<Rightarrow> nval x)"

definition well_formed :: "cost_record \<Rightarrow> bool" where
  "well_formed c = (case amount_of c of Inl e \<Rightarrow> False | Inr x \<Rightarrow> True)"


section \<open>The reconciler (\<open>BudgetReconciler.reconcile\<close>)\<close>

text \<open>
  A budget entry of the configuration: both keys are optional, \<open>.get("monthly_target", 0)\<close>
  and \<open>.get("alert_threshold_pct", 10)\<close> supply the defaults. The configuration is a dict
  from the name of the business unit to its entry; \<open>self.budgets.get(bu_name, {})\<close> is an
  entry without keys for a unit that is not configured.
\<close>

record budget_entry =
  monthly_target :: "pynum option"
  alert_threshold_pct :: "pynum option"

type_synonym budgets = "(string \<times> budget_entry) list"

definition budget_config_of :: "budgets \<Rightarrow> string \<Rightarrow> budget_entry" where
  "budget_config_of bs bu_name =
     (case map_of bs bu_name of
        None \<Rightarrow> \<lparr>monthly_target = None, alert_threshold_pct = None\<rparr>
      | Some c \<Rightarrow> c)"

definition budget_target_of :: "budget_entry \<Rightarrow> pynum" where
  "budget_target_of c = (case monthly_target c of None \<Rightarrow> NInt 0 | Some t \<Rightarrow> t)"

definition alert_threshold_of :: "budget_entry \<Rightarrow> pynum" where
  "alert_threshold_of c = (case alert_threshold_pct c of None \<Rightarrow> NInt 10 | Some t \<Rightarrow> t)"

datatype budget_status = ON_TRACK | OVERRUN | UNDERRUN | NO_BUDGET

text \<open>
  \<open>sorted(items, key=..., reverse=True)\<close>: the list is reversed, sorted by a stable
  ascending sort, and reversed again. \<open>sort_key\<close> is a stable sort.
\<close>

definition sorted_reverse :: "('a \<Rightarrow> 'k::linorder) \<Rightarrow> 'a list \<Rightarrow> 'a list" where
  "sorted_reverse key xs = rev (sort_key key (rev xs))"

text \<open>
  The entry of one business unit in \<open>results["units"]\<close>. The keys that the \<open>NO_BUDGET\<close>
  entry does not have are \<open>None\<close>, which is what \<open>data.get(...)\<close> answers for them.
\<close>

record unit_result =
  actual :: pynum
  budget :: "pynum option"
  variance :: "pynum option"
  variance_pct :: "pynum option"
  unit_status :: budget_status
  unit_alert_threshold_pct :: "pynum option"
  top_cost_drivers :: "(pyval \<times> pynum) list option"
  unit_accounts :: "account_entry list option"
  message :: "string option"

record reconciliation =
  month :: string
  units :: "(string \<times> unit_result) list"
  total_variances :: nat
  total_overrun :: pynum
  total_underrun :: pynum

text \<open>
  \<open>sorted(bu_costs.get("services", {}).items(), key=lambda x: x[1], reverse=True)[:5]\<close>:
  the keys are compared as numbers, by their values.
\<close>

definition top_services :: "bu_aggregate \<Rightarrow> (pyval \<times> pynum) list" where
  "top_services bu_costs = take 5 (sorted_reverse (\<lambda>x. nval (snd x)) (services bu_costs))"

text \<open>The two dict literals that the loop stores in \<open>results["units"][bu_name]\<close>.\<close>

definition no_budget_unit :: "pynum \<Rightarrow> unit_result" where
  "no_budget_unit actual_spend =
     \<lparr>actual = actual_spend, budget = None, variance = None, variance_pct = None,
      unit_status = NO_BUDGET, unit_alert_threshold_pct = None,
      top_cost_drivers = None, unit_accounts = None,
      message = Some ''No budget configured for this business unit''\<rparr>"

definition budget_unit ::
  "bu_aggregate \<Rightarrow> pynum \<Rightarrow> pynum \<Rightarrow> pynum \<Rightarrow> pynum \<Rightarrow> budget_status \<Rightarrow> unit_result" where
  "budget_unit bu_costs budget_target alert_threshold var var_pct st =
     \<lparr>actual = py_round (total bu_costs) 2, budget = Some budget_target,
      variance = Some (py_round var 2),
      variance_pct = Some (py_round var_pct 1),
      unit_status = st,
      unit_alert_threshold_pct = Some alert_threshold,
      top_cost_drivers =
        Some (map (\<lambda>sa. (fst sa, py_round (snd sa) 2)) (top_services bu_costs)),
      unit_accounts = Some (accounts bu_costs),
      message = None\<rparr>"

text \<open>One iteration of the loop over \<open>aggregated_costs.items()\<close>.\<close>

definition reconcile_unit ::
  "budgets \<Rightarrow> reconciliation \<Rightarrow> string \<times> bu_aggregate \<Rightarrow> py_error + reconciliation" where
  "reconcile_unit bs results p =
     (let bu_name = fst p; bu_costs = snd p;
          actual_spend = total bu_costs;
          budget_config = budget_config_of bs bu_name;
          budget_target = budget_target_of budget_config;
          alert_threshold = alert_threshold_of budget_config
      in if nval budget_target = 0 then
           Inr (results\<lparr>units :=
                  AList.update bu_name (no_budget_unit actual_spend) (units results)\<rparr>)
         else
           (let var = py_sub actual_spend budget_target
            in case py_div var budget_target of
                 Inl e \<Rightarrow> Inl e
               | Inr q \<Rightarrow>
                   (let var_pct = py_mul q (NInt 100);
                        st = (if nval var_pct > nval alert_threshold then OVERRUN
                              else if nval var_pct < nval (py_neg alert_threshold) then UNDERRUN
                              else ON_TRACK);
                        results1 =
                          (if nval var_pct > nval alert_threshold then
                             results\<lparr>total_variances := total_variances results + 1,
                                     total_overrun := py_add (total_overrun results) var\<rparr>
                           else if nval var_pct < nval (py_neg alert_threshold) then
                             results\<lparr>total_underrun :=
                                       py_add (total_underrun results) (py_abs var)\<rparr>
                           else results)
                    in Inr (results1\<lparr>units :=
                              AList.update bu_name
                                (budget_unit bu_costs budget_target alert_threshold var var_pct st)
                                (units results1)\<rparr>))))"

fun reconcile_loop :: "budgets \<Rightarrow> reconciliation \<Rightarrow> aggregated \<Rightarrow> py_error + reconciliation" where
  "reconcile_loop bs results [] = Inr results"
| "reconcile_loop bs results (p # ps) =
     (case reconcile_unit bs results p of
        Inl e \<Rightarrow> Inl e
      | Inr results' \<Rightarrow> reconcile_loop bs results' ps)"

definition reconcile :: "budgets \<Rightarrow> aggregated \<Rightarrow> string \<Rightarrow> py_error + reconciliation" where
  "reconcile bs aggregated_costs m =
     reconcile_loop bs
       \<lparr>month = m, units = [], total_variances = 0, total_overrun = NInt 0,
        total_underrun = NInt 0\<rparr>
       aggregated_costs"

text \<open>
  The status as the specification words it, a function of the variance percentage and of the
  threshold alone.
\<close>

definition spec_status :: "pynum \<Rightarrow> pynum \<Rightarrow> budget_status" where
  "spec_status pct threshold =
     (if nval pct > nval threshold then OVERRUN
      else if nval pct < nval (py_neg threshold) then UNDERRUN
      else ON_TRACK)"

section \<open>Strings of values, JSON and MD5\<close>

text \<open>The decimal digits of an \<open>int\<close>, as \<open>str\<close> prints them.\<close>

definition digit_char :: "int \<Rightarrow> char" where
  "digit_char d = char_of (48 + d)"

function str_pos :: "int \<Rightarrow> string" where
  "str_pos n = (if n < 10 then [digit_char n] else str_pos (n div 10) @ [digit_char (n mod 10)])"
  by pat_completeness auto
termination
  by (relation "measure nat") auto

declare str_pos.simps [simp del]

definition str_int :: "int \<Rightarrow> string" where
  "str_int i = (if i < 0 then CHR ''-'' # str_pos (- i) else str_pos i)"

text \<open>
  \<open>str(v)\<close>, which is what an f-string inserts. The shortest decimal that reads back as the
  same \<open>float\<close> is the work of the interpreter: \<open>float_repr\<close> stands for it and is a
  parameter of everything that prints a \<open>float\<close>.
\<close>

fun py_str :: "(double \<Rightarrow> string) \<Rightarrow> pyval \<Rightarrow> string" where
  "py_str float_repr PNone = ''None''"
| "py_str float_repr (PInt i) = str_int i"
| "py_str float_repr (PFloat r) = float_repr r"
| "py_str float_repr (PStr s) = s"

text \<open>\<open>record.get(k)\<close>\<close>

definition py_get :: "cost_record \<Rightarrow> string \<Rightarrow> pyval" where
  "py_get r k = (case map_of r k of None \<Rightarrow> PNone | Some v \<Rightarrow> v)"

text \<open>\<open>sep.join(xs)\<close>\<close>

fun py_join :: "string \<Rightarrow> string list \<Rightarrow> string" where
  "py_join sep [] = []"
| "py_join sep [x] = x"
| "py_join sep (x # y # ys) = x @ sep @ py_join sep (y # ys)"

text \<open>
  \<open>json.dumps(data, sort_keys=True, default=str)\<close> for a list of records, with the
  separators \<open>", "\<close> and \<open>": "\<close> and with \<open>ensure_ascii\<close>: a character outside
  \<open>' '..'~'\<close> is escaped. A \<open>char\<close> is a code point below 256. The keys of a
  record are strings, sorted as Python compares strings.
\<close>

definition hex_digit :: "int \<Rightarrow> char" where
  "hex_digit n = ''0123456789abcdef'' ! nat n"

definition hex_byte :: "int \<Rightarrow> string" where
  "hex_byte b = [hex_digit (b div 16), hex_digit (b mod 16)]"

definition json_escape_char :: "char \<Rightarrow> string" where
  "json_escape_char c =
     (if c = CHR 0x22 then [CHR 0x5C, CHR 0x22]
      else if c = CHR 0x5C then [CHR 0x5C, CHR 0x5C]
      else if c = CHR 0x0A then [CHR 0x5C, CHR ''n'']
      else if c = CHR 0x0D then [CHR 0x5C, CHR ''r'']
      else if c = CHR 0x09 then [CHR 0x5C, CHR ''t'']
      else if c = CHR 0x08 then [CHR 0x5C, CHR ''b'']
      else if c = CHR 0x0C then [CHR 0x5C, CHR ''f'']
      else if 32 \<le> (of_char c :: int) \<and> (of_char c :: int) \<le> 126 then [c]
      else [CHR 0x5C, CHR ''u'', CHR ''0'', CHR ''0''] @ hex_byte (of_char c))"

definition json_string :: "string \<Rightarrow> string" where
  "json_string s = CHR 0x22 # concat (map json_escape_char s) @ [CHR 0x22]"

fun json_value :: "(double \<Rightarrow> string) \<Rightarrow> pyval \<Rightarrow> string" where
  "json_value float_repr PNone = ''null''"
| "json_value float_repr (PInt i) = str_int i"
| "json_value float_repr (PFloat r) = float_repr r"
| "json_value float_repr (PStr s) = json_string s"

definition json_item :: "(double \<Rightarrow> string) \<Rightarrow> string \<times> pyval \<Rightarrow> string" where
  "json_item float_repr kv = json_string (fst kv) @ '': '' @ json_value float_repr (snd kv)"

definition json_dict :: "(double \<Rightarrow> string) \<Rightarrow> cost_record \<Rightarrow> string" where
  "json_dict float_repr r =
     ''{'' @ py_join '', '' (map (json_item float_repr) (sort_key fst r)) @ ''}''"

definition json_dumps :: "(double \<Rightarrow> string) \<Rightarrow> cost_record list \<Rightarrow> string" where
  "json_dumps float_repr data = ''['' @ py_join '', '' (map (json_dict float_repr) data) @ '']''"

text \<open>
  \<open>hashlib.md5(...).hexdigest()\<close>, the MD5 message digest of RFC 1321 on the bytes of an
  ASCII string: 64 steps on four 32-bit words for each block of 64 bytes.
\<close>

definition md5_K :: "32 word list" where
  "md5_K =
     [0xd76aa478, 0xe8c7b756, 0x242070db, 0xc1bdceee,
      0xf57c0faf, 0x4787c62a, 0xa8304613, 0xfd469501,
      0x698098d8, 0x8b44f7af, 0xffff5bb1, 0x895cd7be,
      0x6b901122, 0xfd987193, 0xa679438e, 0x49b40821,
      0xf61e2562, 0xc040b340, 0x265e5a51, 0xe9b6c7aa,
      0xd62f105d, 0x02441453, 0xd8a1e681, 0xe7d3fbc8,
      0x21e1cde6, 0xc33707d6, 0xf4d50d87, 0x455a14ed,
      0xa9e3e905, 0xfcefa3f8, 0x676f02d9, 0x8d2a4c8a,
      0xfffa3942, 0x8771f681, 0x6d9d6122, 0xfde5380c,
      0xa4beea44, 0x4bdecfa9, 0xf6bb4b60, 0xbebfbc70,
      0x289b7ec6, 0xeaa127fa, 0xd4ef3085, 0x04881d05,
      0xd9d4d039, 0xe6db99e5, 0x1fa27cf8, 0xc4ac5665,
      0xf4292244, 0x432aff97, 0xab9423a7, 0xfc93a039,
      0x655b59c3, 0x8f0ccc92, 0xffeff47d, 0x85845dd1,
      0x6fa87e4f, 0xfe2ce6e0, 0xa3014314, 0x4e0811a1,
      0xf7537e82, 0xbd3af235, 0x2ad7d2bb, 0xeb86d391]"

definition md5_s :: "nat list" where
  "md5_s =
     [7, 12, 17, 22, 7, 12, 17, 22, 7, 12, 17, 22, 7, 12, 17, 22,
      5, 9, 14, 20, 5, 9, 14, 20, 5, 9, 14, 20, 5, 9, 14, 20,
      4, 11, 16, 23, 4, 11, 16, 23, 4, 11, 16, 23, 4, 11, 16, 23,
      6, 10, 15, 21, 6, 10, 15, 21, 6, 10, 15, 21, 6, 10, 15, 21]"

type_synonym md5_state = "32 word \<times> 32 word \<times> 32 word \<times> 32 word"

definition md5_step :: "32 word list \<Rightarrow> md5_state \<Rightarrow> nat \<Rightarrow> md5_state" where
  "md5_step m st i =
     (case st of (a, b, c, d) \<Rightarrow>
        let f = (if i < 16 then (b AND c) OR (NOT b AND d)
                 else if i < 32 then (d AND b) OR (NOT d AND c)
                 else if i < 48 then b XOR c XOR d
                 else c XOR (b OR NOT d));
            g = (if i < 16 then i
                 else if i < 32 then (5 * i + 1) mod 16
                 else if i < 48 then (3 * i + 5) mod 16
                 else (7 * i) mod 16);
            f' = f + a + md5_K ! i + m ! g
        in (d, b + word_rotl (md5_s ! i) f', b, c))"

definition md5_block :: "md5_state \<Rightarrow> 32 word list \<Rightarrow> md5_state" where
  "md5_block st m =
     (case st of (a0, b0, c0, d0) \<Rightarrow>
        case foldl (md5_step m) st [0..<64] of (a, b, c, d) \<Rightarrow>
          (a0 + a, b0 + b, c0 + c, d0 + d))"

fun le_bytes :: "nat \<Rightarrow> int \<Rightarrow> int list" where
  "le_bytes 0 x = []"
| "le_bytes (Suc n) x = (x mod 256) # le_bytes n (x div 256)"

fun le_word :: "int list \<Rightarrow> int" where
  "le_word [] = 0"
| "le_word (b # bs) = b + 256 * le_word bs"

definition md5_pad :: "int list \<Rightarrow> int list" where
  "md5_pad bs =
     bs @ [128] @ replicate ((119 - length bs mod 64) mod 64) 0
        @ le_bytes 8 ((8 * int (length bs)) mod 2 ^ 64)"

fun chunks :: "nat \<Rightarrow> nat \<Rightarrow> 'a list \<Rightarrow> 'a list list" where
  "chunks 0 n xs = []"
| "chunks (Suc k) n xs = take n xs # chunks k n (drop n xs)"

definition md5_words :: "int list \<Rightarrow> 32 word list" where
  "md5_words block = map (\<lambda>w. word_of_int (le_word w)) (chunks 16 4 block)"

definition md5_init :: md5_state where
  "md5_init = (0x67452301, 0xefcdab89, 0x98badcfe, 0x10325476)"

definition md5_blocks :: "int list \<Rightarrow> int list list" where
  "md5_blocks bs = chunks (length (md5_pad bs) div 64) 64 (md5_pad bs)"

definition md5_final :: "int list \<Rightarrow> md5_state" where
  "md5_final bs = foldl md5_block md5_init (map md5_words (md5_blocks bs))"

definition md5_out :: "md5_state \<Rightarrow> int list" where
  "md5_out st =
     (case st of (a, b, c, d) \<Rightarrow> concat (map (\<lambda>w. le_bytes 4 (uint w)) [a, b, c, d]))"

definition md5_hexdigest :: "string \<Rightarrow> string" where
  "md5_hexdigest s = concat (map hex_byte (md5_out (md5_final (map of_char s))))"

text \<open>\<open>DataValidator._checksum\<close>\<close>

definition checksum_of :: "(double \<Rightarrow> string) \<Rightarrow> cost_record list \<Rightarrow> string" where
  "checksum_of float_repr data = md5_hexdigest (json_dumps float_repr data)"

section \<open>The validator (\<open>DataValidator\<close>)\<close>

text \<open>
  An issue is the message that the source formats, kept as the kind of the message with the
  values that the f-string inserts. The time stamp of a result, the validation log and the
  logging are left out: no result depends on them.
\<close>

datatype issue =
    NoCostData string
  | MissingAmount nat
  | AmountNotNumeric nat
  | NegativeAmount nat pyval
  | MissingDate nat
  | InvalidDate nat string
  | MissingService nat
  | PotentialDuplicate string
  | NonPositiveTotal string
  | AccountSumMismatch string pynum pynum
  | ServiceSumMismatch string pynum pynum
  | VarianceMismatch string
  | VariancePctMismatch string

datatype validation_status = PASS | WARN | FAIL

record validation_result =
  status :: validation_status
  issues :: "issue list"
  issue_count :: nat
  record_count :: "nat option"
  total_amount :: "pynum option"
  checksum :: "string option"
  business_units :: "nat option"

text \<open>\<open>DataValidator._result\<close>\<close>

definition mk_result :: "validation_status \<Rightarrow> issue list \<Rightarrow> validation_result" where
  "mk_result st iss =
     \<lparr>status = st, issues = iss, issue_count = length iss, record_count = None,
      total_amount = None, checksum = None, business_units = None\<rparr>"

text \<open>The three checks of one record, in the order of the source.\<close>

definition check_amount :: "nat \<Rightarrow> cost_record \<Rightarrow> issue list" where
  "check_amount i r =
     (case map_of r ''amount'' of
        None \<Rightarrow> [MissingAmount i]
      | Some v \<Rightarrow>
          (case num_val v of
             None \<Rightarrow> [AmountNotNumeric i]
           | Some x \<Rightarrow> if nval x < 0 then [NegativeAmount i v] else []))"

text \<open>
  \<open>datetime.strptime(record["date"], "%Y-%m-%d")\<close> raises \<open>ValueError\<close>, which the source
  catches, for a string that is not such a date, and \<open>TypeError\<close>, which it does not catch,
  for a value that is not a string. Which strings are dates is the work of the library:
  \<open>strptime_ok\<close> stands for it.
\<close>

definition check_date :: "(string \<Rightarrow> bool) \<Rightarrow> nat \<Rightarrow> cost_record \<Rightarrow> py_error + issue list" where
  "check_date strptime_ok i r =
     (case map_of r ''date'' of
        None \<Rightarrow> Inr [MissingDate i]
      | Some (PStr d) \<Rightarrow> Inr (if strptime_ok d then [] else [InvalidDate i d])
      | Some _ \<Rightarrow> Inl TypeError)"

definition check_service :: "nat \<Rightarrow> cost_record \<Rightarrow> issue list" where
  "check_service i r = (case map_of r ''service'' of None \<Rightarrow> [MissingService i] | Some v \<Rightarrow> [])"

text \<open>\<open>for i, record in enumerate(costs)\<close>, from the index \<open>i\<close>.\<close>

fun check_records :: "(string \<Rightarrow> bool) \<Rightarrow> nat \<Rightarrow> cost_record list \<Rightarrow> py_error + issue list" where
  "check_records strptime_ok i [] = Inr []"
| "check_records strptime_ok i (r # rs) =
     (case check_date strptime_ok i r of
        Inl e \<Rightarrow> Inl e
      | Inr ds \<Rightarrow>
          (case check_records strptime_ok (Suc i) rs of
             Inl e \<Rightarrow> Inl e
           | Inr rest \<Rightarrow> Inr (check_amount i r @ ds @ check_service i r @ rest)))"

text \<open>\<open>f"{record.get('date')}|{record.get('service')}|{record.get('amount')}"\<close>\<close>

definition dup_key :: "(double \<Rightarrow> string) \<Rightarrow> cost_record \<Rightarrow> string" where
  "dup_key float_repr r =
     py_str float_repr (py_get r ''date'') @ ''|'' @ py_str float_repr (py_get r ''service'')
       @ ''|'' @ py_str float_repr (py_get r ''amount'')"

text \<open>The loop over the records with the set \<open>seen\<close>.\<close>

fun duplicate_issues :: "(double \<Rightarrow> string) \<Rightarrow> string set \<Rightarrow> cost_record list \<Rightarrow> issue list" where
  "duplicate_issues float_repr seen [] = []"
| "duplicate_issues float_repr seen (r # rs) =
     (if dup_key float_repr r \<in> seen then [PotentialDuplicate (dup_key float_repr r)] else [])
       @ duplicate_issues float_repr (insert (dup_key float_repr r) seen) rs"

text \<open>\<open>sum(r.get("amount", 0) for r in costs)\<close>, from the accumulator \<open>acc\<close>.\<close>

fun sum_get_amounts :: "pynum \<Rightarrow> cost_record list \<Rightarrow> py_error + pynum" where
  "sum_get_amounts acc [] = Inr acc"
| "sum_get_amounts acc (r # rs) =
     (case map_of r ''amount'' of
        None \<Rightarrow> sum_get_amounts (py_add acc (NInt 0)) rs
      | Some v \<Rightarrow>
          (case num_val v of
             None \<Rightarrow> Inl TypeError
           | Some x \<Rightarrow> sum_get_amounts (py_add acc x) rs))"

definition validate_cost_data ::
  "(string \<Rightarrow> bool) \<Rightarrow> (double \<Rightarrow> string) \<Rightarrow> cost_record list \<Rightarrow> string
     \<Rightarrow> py_error + validation_result" where
  "validate_cost_data strptime_ok float_repr cost_list payer_id =
     (if cost_list = [] then Inr (mk_result FAIL [NoCostData payer_id])
      else
        (case check_records strptime_ok 0 cost_list of
           Inl e \<Rightarrow> Inl e
         | Inr field_issues \<Rightarrow>
             (let iss = field_issues @ duplicate_issues float_repr {} cost_list;
                  st = (if iss = [] then PASS else if length iss < 3 then WARN else FAIL)
              in case sum_get_amounts (NInt 0) cost_list of
                   Inl e \<Rightarrow> Inl e
                 | Inr t \<Rightarrow>
                     Inr ((mk_result st iss)
                            \<lparr>record_count := Some (length cost_list),
                             total_amount := Some t,
                             checksum := Some (checksum_of float_repr cost_list)\<rparr>))))"

text \<open>
  \<open>DataValidator.validate_aggregation\<close>. The tolerance is the float that the literal
  \<open>0.01\<close> denotes.
\<close>

definition aggregation_issues :: "string \<times> bu_aggregate \<Rightarrow> issue list" where
  "aggregation_issues p =
     (let bu_name = fst p; bu_data = snd p
      in (if nval (total bu_data) \<le> 0 then [NonPositiveTotal bu_name] else [])
         @ (if nval (py_abs (py_sub (account_sum bu_data) (total bu_data)))
                 > dval (double_of (1 / 100))
            then [AccountSumMismatch bu_name (account_sum bu_data) (total bu_data)] else [])
         @ (if nval (py_abs (py_sub (service_sum bu_data) (total bu_data)))
                 > dval (double_of (1 / 100))
            then [ServiceSumMismatch bu_name (service_sum bu_data) (total bu_data)] else []))"

definition validate_aggregation :: "aggregated \<Rightarrow> validation_result" where
  "validate_aggregation agg =
     (let iss = concat (map aggregation_issues agg)
      in (mk_result (if iss = [] then PASS else FAIL) iss)
           \<lparr>business_units := Some (length agg)\<rparr>)"

text \<open>
  \<open>DataValidator.validate_reconciliation\<close>. \<open>data.get("budget")\<close> is true for a budget
  that is there and not zero, so the division has a divisor that is not zero, and
  \<open>data.get("actual")\<close> is never \<open>None\<close> in an entry of the reconciler. The tolerances
  are the floats that the literals \<open>0.01\<close> and \<open>0.1\<close> denote.
\<close>

definition reconciliation_issues :: "string \<times> unit_result \<Rightarrow> issue list" where
  "reconciliation_issues p =
     (let bu_name = fst p; data = snd p
      in case budget data of
           None \<Rightarrow> []
         | Some b \<Rightarrow>
             if nval b = 0 then []
             else
               (let expected_variance = py_sub (actual data) b
                in (if nval (py_abs (py_sub expected_variance
                                (case variance data of None \<Rightarrow> NInt 0 | Some v \<Rightarrow> v)))
                         > dval (double_of (1 / 100))
                    then [VarianceMismatch bu_name] else [])
                   @ (case variance_pct data of
                        None \<Rightarrow> []
                      | Some vp \<Rightarrow>
                          (let expected_pct = py_mul (quotient expected_variance b) (NInt 100)
                           in if nval (py_abs (py_sub expected_pct vp)) > dval (double_of (1 / 10))
                              then [VariancePctMismatch bu_name] else []))))"

definition validate_reconciliation :: "reconciliation \<Rightarrow> validation_result" where
  "validate_reconciliation rec =
     (let iss = concat (map reconciliation_issues (units rec))
      in mk_result (if iss = [] then PASS else FAIL) iss)"

section \<open>Predicates of the properties and example inputs\<close>

text \<open>
  The exact sums of the account totals and of the service subtotals of an aggregate, and the
  exact sum of the record amounts of the accounts of one business unit.
\<close>

definition exact_account_sum :: "bu_aggregate \<Rightarrow> rat" where
  "exact_account_sum a = sum_list (map (\<lambda>e. nval (entry_total e)) (accounts a))"

definition exact_service_sum :: "bu_aggregate \<Rightarrow> rat" where
  "exact_service_sum a = sum_list (map (\<lambda>p. nval (snd p)) (services a))"

definition unit_record_total :: "string \<Rightarrow> (string \<times> account_data) list \<Rightarrow> rat" where
  "unit_record_total bu all_costs =
     sum_list (map (\<lambda>p. sum_list (map amount_val (costs (snd p))))
       (filter (\<lambda>p. business_unit (snd p) = bu) all_costs))"

text \<open>
  The aggregate that the aggregator holds for a unit (the empty one for a unit it has not
  seen).
\<close>

definition lookup_aggregate :: "aggregated \<Rightarrow> string \<Rightarrow> bu_aggregate" where
  "lookup_aggregate agg bu = (case map_of agg bu of None \<Rightarrow> empty_aggregate | Some a \<Rightarrow> a)"

text \<open>
  The example of the specification: the unit Engineering with the accounts A1, total 7000,
  and A2, total 3000.
\<close>

definition example_costs :: "(string \<times> account_data) list" where
  "example_costs =
     [(''A1'', \<lparr>acct_name = ''Platform'', business_unit = ''Engineering'',
         costs =
           [[(''date'', PStr ''2025-11-01''), (''service'', PStr ''EC2''), (''amount'', PInt 4000)],
            [(''date'', PStr ''2025-11-02''), (''service'', PStr ''S3''), (''amount'', PInt 3000)]]\<rparr>),
      (''A2'', \<lparr>acct_name = ''Data'', business_unit = ''Engineering'',
         costs =
           [[(''date'', PStr ''2025-11-01''), (''service'', PStr ''EC2''), (''amount'', PFloat (double_of 3000))]]\<rparr>)]"

definition example_aggregate :: bu_aggregate where
  "example_aggregate =
     \<lparr>total = NFloat (double_of 10000),
      accounts = [\<lparr>entry_id = ''A1'', entry_name = ''Platform'', entry_total = NInt 7000\<rparr>,
                  \<lparr>entry_id = ''A2'', entry_name = ''Data'',
                    entry_total = NFloat (double_of 3000)\<rparr>],
      services = [(PStr ''EC2'', NFloat (double_of 7000)), (PStr ''S3'', NInt 3000)]\<rparr>"

text \<open>
  The entry that \<open>reconcile_unit\<close> stores for a business unit, as a function of the budgets
  and of the aggregate of the unit.
\<close>

definition unit_entry :: "budgets \<Rightarrow> string \<times> bu_aggregate \<Rightarrow> unit_result" where
  "unit_entry bs p =
     (let c = budget_config_of bs (fst p); t = budget_target_of c; th = alert_threshold_of c;
          var = py_sub (total (snd p)) t; var_pct = py_mul (quotient var t) (NInt 100)
      in if nval t = 0 then no_budget_unit (total (snd p))
         else budget_unit (snd p) t th var var_pct
                (if nval var_pct > nval th then OVERRUN
                 else if nval var_pct < nval (py_neg th) then UNDERRUN
                 else ON_TRACK))"

text \<open>The examples of the specification: Engineering against 8000, Sandbox against 5000.\<close>

definition example_budgets :: budgets where
  "example_budgets =
     [(''Engineering'',
        \<lparr>monthly_target = Some (NInt 8000), alert_threshold_pct = Some (NInt 10)\<rparr>),
      (''Sandbox'', \<lparr>monthly_target = Some (NInt 5000), alert_threshold_pct = None\<rparr>)]"

definition example_aggregated_costs :: aggregated where
  "example_aggregated_costs =
     [(''Engineering'', example_aggregate),
      (''Sandbox'',
        \<lparr>total = NInt 5200,
         accounts = [\<lparr>entry_id = ''A3'', entry_name = ''Sandbox'', entry_total = NInt 5200\<rparr>],
         services = [(PStr ''S3'', NInt 100), (PStr ''EC2'', NInt 2000), (PStr ''RDS'', NInt 500),
                     (PStr ''Lambda'', NInt 2000), (PStr ''SQS'', NInt 50),
                     (PStr ''SNS'', NInt 50), (PStr ''EKS'', NInt 500)]\<rparr>),
      (''Unassigned'',
        \<lparr>total = NInt 12, accounts = [], services = [(PStr ''Other'', NInt 12)]\<rparr>)]"

text \<open>
  A unit with a small budget: one account with a single record of 2.004 against a monthly
  target of 2.
\<close>

definition small_budget_costs :: "(string \<times> account_data) list" where
  "small_budget_costs =
     [(''A9'', \<lparr>acct_name = ''Probe'', business_unit = ''Sandbox'',
         costs = [[(''date'', PStr ''2025-11-03''), (''service'', PStr ''S3''),
                   (''amount'', PFloat (double_of (501 / 250)))]]\<rparr>)]"

definition small_budgets :: budgets where
  "small_budgets =
     [(''Sandbox'', \<lparr>monthly_target = Some (NInt 2), alert_threshold_pct = None\<rparr>)]"

definition small_budget_aggregate :: bu_aggregate where
  "small_budget_aggregate =
     \<lparr>total = NFloat (double_of (501 / 250)),
      accounts = [\<lparr>entry_id = ''A9'', entry_name = ''Probe'',
                    entry_total = NFloat (double_of (501 / 250))\<rparr>],
      services = [(PStr ''S3'', NFloat (double_of (501 / 250)))]\<rparr>"

definition small_budget_unit :: unit_result where
  "small_budget_unit =
     \<lparr>actual = NFloat (double_of 2), budget = Some (NInt 2),
      variance = Some (NFloat (double_of 0)), variance_pct = Some (NFloat (double_of (1 / 5))),
      unit_status = ON_TRACK, unit_alert_threshold_pct = Some (NInt 10),
      top_cost_drivers = Some [(PStr ''S3'', NFloat (double_of 2))],
      unit_accounts = Some [\<lparr>entry_id = ''A9'', entry_name = ''Probe'',
                              entry_total = NFloat (double_of (501 / 250))\<rparr>],
      message = None\<rparr>"

text \<open>
  A record that the field checks of \<open>validate_cost_data\<close> accept: a numeric amount that is
  not negative, a date that is a string and parses, and a service.
\<close>

definition clean_record :: "(string \<Rightarrow> bool) \<Rightarrow> cost_record \<Rightarrow> bool" where
  "clean_record strptime_ok r \<longleftrightarrow>
     (case map_of r ''amount'' of
        None \<Rightarrow> False
      | Some v \<Rightarrow> (case num_val v of None \<Rightarrow> False | Some x \<Rightarrow> 0 \<le> nval x))
     \<and> (case map_of r ''date'' of Some (PStr d) \<Rightarrow> strptime_ok d | _ \<Rightarrow> False)
     \<and> map_of r ''service'' \<noteq> None"


text \<open>
  A record whose fields are absent or of the type that the checks expect: the amount, when
  there, is a number and the date, when there, is a string.
\<close>

definition typed_record :: "cost_record \<Rightarrow> bool" where
  "typed_record r \<longleftrightarrow>
     (case map_of r ''amount'' of None \<Rightarrow> True | Some v \<Rightarrow> num_val v \<noteq> None)
     \<and> (case map_of r ''date'' of None \<Rightarrow> True | Some (PStr d) \<Rightarrow> True | Some _ \<Rightarrow> False)"

text \<open>
  The verdict of \<open>strptime\<close> and the \<open>repr\<close> of a \<open>float\<close> on the values of the examples.
\<close>

definition example_strptime_ok :: "string \<Rightarrow> bool" where
  "example_strptime_ok d \<longleftrightarrow> d \<in> {''2025-11-01'', ''2025-11-02'', ''2025-11-03''}"

definition example_float_repr :: "double \<Rightarrow> string" where
  "example_float_repr d =
     (if dval d = 25 / 2 then ''12.5'' else if dval d = 3000 then ''3000.0'' else ''nan'')"

definition duplicated_records :: "cost_record list" where
  "duplicated_records =
     [[(''date'', PStr ''2025-11-01''), (''service'', PStr ''EC2''), (''amount'', PInt 40)],
      [(''date'', PStr ''2025-11-02''), (''service'', PStr ''S3''), (''amount'', PInt 30)],
      [(''date'', PStr ''2025-11-01''), (''service'', PStr ''EC2''), (''amount'', PInt 40)]]"

definition non_numeric_records :: "cost_record list" where
  "non_numeric_records =
     [[(''date'', PStr ''2025-11-01''), (''service'', PStr ''EC2''), (''amount'', PStr ''12.5'')]]"

definition null_amount_records :: "cost_record list" where
  "null_amount_records =
     [[(''date'', PStr ''2025-11-01''), (''service'', PStr ''S3''), (''amount'', PNone)]]"

definition missing_amount_costs :: "(string \<times> account_data) list" where
  "missing_amount_costs =
     [(''A1'', \<lparr>acct_name = ''Platform'', business_unit = ''Engineering'',
         costs = [[(''date'', PStr ''2025-11-01''), (''service'', PStr ''EC2'')]]\<rparr>)]"

definition duplicated_result :: validation_result where
  "duplicated_result =
     \<lparr>status = WARN, issues = [PotentialDuplicate ''2025-11-01|EC2|40''], issue_count = 1,
      record_count = Some 3, total_amount = Some (NInt 110),
      checksum = Some (checksum_of example_float_repr duplicated_records),
      business_units = None\<rparr>"

text \<open>One set of two records in its two orders.\<close>

definition order_a_records :: "cost_record list" where
  "order_a_records =
     [[(''date'', PStr ''2025-11-01''), (''service'', PStr ''EC2''), (''amount'', PInt 40)],
      [(''date'', PStr ''2025-11-02''), (''service'', PStr ''S3''), (''amount'', PInt 30)]]"

definition order_b_records :: "cost_record list" where
  "order_b_records =
     [[(''date'', PStr ''2025-11-02''), (''service'', PStr ''S3''), (''amount'', PInt 30)],
      [(''date'', PStr ''2025-11-01''), (''service'', PStr ''EC2''), (''amount'', PInt 40)]]"

text \<open>The records of the first order with the keys of each record in another order.\<close>

definition order_a_rekeyed :: "cost_record list" where
  "order_a_rekeyed =
     [[(''amount'', PInt 40), (''service'', PStr ''EC2''), (''date'', PStr ''2025-11-01'')],
      [(''service'', PStr ''S3''), (''date'', PStr ''2025-11-02''), (''amount'', PInt 30)]]"

definition order_a_result :: validation_result where
  "order_a_result =
     \<lparr>status = PASS, issues = [], issue_count = 0, record_count = Some 2,
      total_amount = Some (NInt 70), checksum = Some ''454b7c667ccd431041834eecc5000a70'',
      business_units = None\<rparr>"

definition order_b_result :: validation_result where
  "order_b_result =
     \<lparr>status = PASS, issues = [], issue_count = 0, record_count = Some 2,
      total_amount = Some (NInt 70), checksum = Some ''9e9601cd9afa9e2b2040661b4223b052'',
      business_units = None\<rparr>"


text \<open>
  Two units with the same budget of 100 and the same threshold of 7: one has spent 107, the
  other 106.98. The entries are those that the reconciler stores for them.
\<close>

definition threshold_budgets :: budgets where
  "threshold_budgets =
     [(''Alpha'', \<lparr>monthly_target = Some (NInt 100), alert_threshold_pct = Some (NInt 7)\<rparr>),
      (''Beta'', \<lparr>monthly_target = Some (NInt 100), alert_threshold_pct = Some (NInt 7)\<rparr>)]"

definition threshold_aggregated :: aggregated where
  "threshold_aggregated =
     [(''Alpha'', \<lparr>total = NInt 107, accounts = [], services = []\<rparr>),
      (''Beta'', \<lparr>total = NFloat (double_of (5349 / 50)), accounts = [], services = []\<rparr>)]"

definition alpha_unit :: unit_result where
  "alpha_unit =
     \<lparr>actual = NInt 107, budget = Some (NInt 100), variance = Some (NInt 7),
      variance_pct = Some (NFloat (double_of 7)), unit_status = OVERRUN,
      unit_alert_threshold_pct = Some (NInt 7), top_cost_drivers = Some [],
      unit_accounts = Some [], message = None\<rparr>"

definition beta_unit :: unit_result where
  "beta_unit =
     \<lparr>actual = NFloat (double_of (5349 / 50)), budget = Some (NInt 100),
      variance = Some (NFloat (double_of (349 / 50))),
      variance_pct = Some (NFloat (double_of 7)), unit_status = ON_TRACK,
      unit_alert_threshold_pct = Some (NInt 7), top_cost_drivers = Some [],
      unit_accounts = Some [], message = None\<rparr>"

text \<open>
  One unit with three accounts of one record each: 1e16 for EC2, and twice 1.0 for S3.
\<close>

definition large_costs :: "(string \<times> account_data) list" where
  "large_costs =
     [(''A1'', \<lparr>acct_name = ''Platform'', business_unit = ''Engineering'',
         costs = [[(''date'', PStr ''2025-11-01''), (''service'', PStr ''EC2''),
                   (''amount'', PFloat (double_of (10 ^ 16)))]]\<rparr>),
      (''A2'', \<lparr>acct_name = ''Data'', business_unit = ''Engineering'',
         costs = [[(''date'', PStr ''2025-11-01''), (''service'', PStr ''S3''),
                   (''amount'', PFloat (double_of 1))]]\<rparr>),
      (''A3'', \<lparr>acct_name = ''Web'', business_unit = ''Engineering'',
         costs = [[(''date'', PStr ''2025-11-01''), (''service'', PStr ''S3''),
                   (''amount'', PFloat (double_of 1))]]\<rparr>)]"

definition large_aggregate :: bu_aggregate where
  "large_aggregate =
     \<lparr>total = NFloat (double_of (10 ^ 16)),
      accounts = [\<lparr>entry_id = ''A1'', entry_name = ''Platform'',
                    entry_total = NFloat (double_of (10 ^ 16))\<rparr>,
                  \<lparr>entry_id = ''A2'', entry_name = ''Data'', entry_total = NFloat (double_of 1)\<rparr>,
                  \<lparr>entry_id = ''A3'', entry_name = ''Web'', entry_total = NFloat (double_of 1)\<rparr>],
      services = [(PStr ''EC2'', NFloat (double_of (10 ^ 16))),
                  (PStr ''S3'', NFloat (double_of 2))]\<rparr>"



text \<open>
  The measure of the rounding error of a number that is the result of a chain of rounded
  additions of numbers that are not negative: \<open>near k v a\<close> says that \<open>v\<close> is the exact
  value \<open>a\<close> up to \<open>k\<close> roundings, each of a relative error of at most \<open>2 ^ -53\<close>.
\<close>

definition near :: "nat \<Rightarrow> rat \<Rightarrow> rat \<Rightarrow> bool" where
  "near k v a \<longleftrightarrow> (1 - 1 / 2 ^ 53) ^ k * a \<le> v \<and> v \<le> (1 + 1 / 2 ^ 53) ^ k * a"

text \<open>
  The accounts whose records all have an amount that is a number and not negative, and the
  number of roundings that the aggregation of the accounts can make: two for every account
  and two for every record (one for an operand that is an \<open>int\<close>, one for the sum).
\<close>

definition good_records :: "cost_record list \<Rightarrow> bool" where
  "good_records cs \<longleftrightarrow> list_all (\<lambda>c. well_formed c \<and> 0 \<le> amount_val c) cs"

definition nonneg_amounts :: "(string \<times> account_data) list \<Rightarrow> bool" where
  "nonneg_amounts all_costs \<longleftrightarrow> list_all (\<lambda>p. good_records (costs (snd p))) all_costs"

definition rounding_steps :: "(string \<times> account_data) list \<Rightarrow> nat" where
  "rounding_steps all_costs =
     2 * (length all_costs + sum_list (map (\<lambda>p. length (costs (snd p))) all_costs))"

text \<open>
  The state of one aggregate after some accounts: its total is the exact sum \<open>s\<close> of the
  record amounts up to \<open>k\<close> roundings, its account totals and its service subtotals are
  those of a split of \<open>s\<close> over the accounts and of a split over the services, and
  \<open>k\<close> counts two roundings or more for every account and for every service.
\<close>

definition unit_near :: "nat \<Rightarrow> bu_aggregate \<Rightarrow> rat \<Rightarrow> bool" where
  "unit_near k a s \<longleftrightarrow>
     0 \<le> s \<and> near k (nval (total a)) s
     \<and> (\<exists>xs. list_all2 (\<lambda>e x. near k (nval (entry_total e)) x \<and> 0 \<le> x) (accounts a) xs
            \<and> sum_list xs = s)
     \<and> (\<exists>ss. list_all2 (\<lambda>p x. near k (nval (snd p)) x \<and> 0 \<le> x) (services a) ss
            \<and> sum_list ss = s)
     \<and> 2 * length (accounts a) \<le> k \<and> 2 * length (services a) \<le> k"

section \<open>Properties of the rounding\<close>

text \<open>
  The exponent brackets the number, rounding is monotone, odd and idempotent, it moves a
  number by at most the relative error \<open>2 ^ -53\<close>, and it leaves alone the numbers with a
  significand of at most 53 bits, the integers up to \<open>2 ^ 53\<close> among them.
\<close>

lemma bitlen_rat_bounds:
  assumes "0 < p"
  shows "(2::rat) powi (bitlen p - 1) \<le> of_int p" "of_int p < (2::rat) powi (bitlen p)"
proof -
  from assms have b: "1 \<le> bitlen p" by (auto simp: bitlen_alt_def)
  from bitlen_bounds [OF assms] have "2 ^ nat (bitlen p - 1) \<le> p" "p < 2 ^ nat (bitlen p)"
    by simp_all
  then have "(of_int (2 ^ nat (bitlen p - 1)) :: rat) \<le> of_int p"
    "(of_int p :: rat) < of_int (2 ^ nat (bitlen p))"
    by (simp_all only: of_int_le_iff of_int_less_iff)
  then show "(2::rat) powi (bitlen p - 1) \<le> of_int p" "of_int p < (2::rat) powi (bitlen p)"
    using b by (simp_all add: power_int_nonneg_exp)
qed

lemma expo_bounds:
  assumes "x \<noteq> 0"
  shows "2 powi (expo x) \<le> \<bar>x\<bar>" and "\<bar>x\<bar> < 2 powi (expo x + 1)"
proof -
  define p where "p = fst (quotient_of \<bar>x\<bar>)"
  define q where "q = snd (quotient_of \<bar>x\<bar>)"
  define d where "d = bitlen p - bitlen q"
  have pq: "quotient_of \<bar>x\<bar> = (p, q)" by (simp add: p_def q_def)
  then have q: "0 < q" by (rule quotient_of_denom_pos)
  from pq have x: "\<bar>x\<bar> = of_int p / of_int q" by (rule quotient_of_div)
  from assms have "0 < \<bar>x\<bar>" by simp
  with x q have p: "0 < p" by (simp add: zero_less_divide_iff)
  note bp = bitlen_rat_bounds [OF p] and bq = bitlen_rat_bounds [OF q]
  have qpos: "(0::rat) < of_int q" using q by simp
  have lo: "2 powi (d - 1) \<le> \<bar>x\<bar>"
  proof -
    have "(2::rat) powi (d - 1) = 2 powi (bitlen p - 1) / 2 powi (bitlen q)"
      by (simp add: d_def power_int_diff)
    also have "\<dots> \<le> of_int p / 2 powi (bitlen q)"
      using bp(1) by (simp add: divide_right_mono)
    also have "\<dots> \<le> of_int p / of_int q"
      using bq(2) p qpos by (intro divide_left_mono) (simp_all add: less_imp_le)
    finally show ?thesis by (simp add: x)
  qed
  have hi: "\<bar>x\<bar> < 2 powi (d + 1)"
  proof -
    have "of_int p / of_int q < (2::rat) powi (bitlen p) / of_int q"
      using bp(2) qpos by (simp add: divide_strict_right_mono)
    also have "\<dots> \<le> 2 powi (bitlen p) / 2 powi (bitlen q - 1)"
      using bq(1) q by (intro divide_left_mono) (simp_all add: zero_less_mult_iff)
    also have "\<dots> = (2::rat) powi (d + 1)"
      by (simp add: d_def power_int_diff [symmetric]) (simp add: algebra_simps)
    finally show ?thesis by (simp add: x)
  qed
  have e: "expo x = (if 2 powi d \<le> \<bar>x\<bar> then d else d - 1)"
    by (simp add: expo_def Let_def p_def q_def d_def)
  show "2 powi (expo x) \<le> \<bar>x\<bar>" using lo by (simp add: e)
  show "\<bar>x\<bar> < 2 powi (expo x + 1)" using hi by (auto simp: e)
qed


lemma expo_unique:
  assumes "2 powi e \<le> \<bar>x\<bar>" and "\<bar>x\<bar> < 2 powi (e + 1)"
  shows "expo x = e"
proof -
  from assms(1) have "0 < \<bar>x\<bar>"
    by (rule less_le_trans [rotated]) simp
  then have nz: "x \<noteq> 0" by simp
  note b = expo_bounds [OF nz]
  show ?thesis
  proof (rule ccontr)
    assume "expo x \<noteq> e"
    then consider "expo x + 1 \<le> e" | "e + 1 \<le> expo x" by linarith
    then show False
    proof cases
      case 1
      then have "(2::rat) powi (expo x + 1) \<le> 2 powi e"
        by (intro power_int_increasing) simp_all
      with b(2) assms(1) show False by linarith
    next
      case 2
      then have "(2::rat) powi (e + 1) \<le> 2 powi (expo x)"
        by (intro power_int_increasing) simp_all
      with b(1) assms(2) show False by linarith
    qed
  qed
qed

lemma expo_minus [simp]: "expo (- x) = expo x"
  by (simp add: expo_def)

lemma round_half_even_bounds:
  "\<bar>of_int (round_half_even y) - y\<bar> \<le> 1 / 2"
proof -
  have "of_int \<lfloor>y\<rfloor> \<le> y" "y < of_int \<lfloor>y\<rfloor> + 1" by linarith+
  then show ?thesis
    by (auto simp: round_half_even_def Let_def)
qed

lemma round_half_even_mono:
  assumes "x \<le> y"
  shows "round_half_even x \<le> round_half_even y"
proof -
  have le: "\<lfloor>x\<rfloor> \<le> \<lfloor>y\<rfloor>" using assms by (rule floor_mono)
  show ?thesis
  proof (cases "\<lfloor>x\<rfloor> = \<lfloor>y\<rfloor>")
    case True
    with assms show ?thesis
      by (auto simp: round_half_even_def Let_def)
  next
    case False
    with le have "\<lfloor>x\<rfloor> + 1 \<le> \<lfloor>y\<rfloor>" by simp
    moreover have "round_half_even x \<le> \<lfloor>x\<rfloor> + 1"
      by (simp add: round_half_even_def Let_def)
    moreover have "\<lfloor>y\<rfloor> \<le> round_half_even y"
      by (simp add: round_half_even_def Let_def)
    ultimately show ?thesis by linarith
  qed
qed

lemma round_half_even_of_int [simp]: "round_half_even (of_int k) = k"
  by (simp add: round_half_even_def)

lemma round_half_even_minus: "round_half_even (- y) = - round_half_even y"
proof (cases "y = of_int \<lfloor>y\<rfloor>")
  case True
  then obtain k where "y = of_int k" ..
  then have "- y = of_int (- k)" by simp
  with \<open>y = of_int k\<close> show ?thesis by (simp only: round_half_even_of_int)
next
  case False
  have lo: "of_int \<lfloor>y\<rfloor> \<le> y" by linarith
  with False have lt: "of_int \<lfloor>y\<rfloor> < y" by linarith
  have hi: "y < of_int \<lfloor>y\<rfloor> + 1" by linarith
  have fm: "\<lfloor>- y\<rfloor> = - \<lfloor>y\<rfloor> - 1"
    using lt hi by (intro floor_unique) simp_all
  show ?thesis
    using lt hi by (auto simp: round_half_even_def Let_def fm)
qed

lemma fl_zero [simp]: "fl 0 = 0"
  by (simp add: fl_def)

lemma fl_minus: "fl (- x) = - fl x"
  by (simp add: fl_def round_half_even_minus)

lemma fl_error:
  assumes "x \<noteq> 0"
  shows "\<bar>fl x - x\<bar> \<le> 2 powi (expo x - 53)"
proof -
  define q :: rat where "q = 2 powi (expo x - 52)"
  have q: "0 < q" by (simp add: q_def)
  have "fl x - x = (of_int (round_half_even (x / q)) - x / q) * q"
    using assms q by (simp add: fl_def q_def [symmetric] algebra_simps)
  then have "\<bar>fl x - x\<bar> = \<bar>of_int (round_half_even (x / q)) - x / q\<bar> * q"
    using q by (simp add: abs_mult)
  also have "\<dots> \<le> (1 / 2) * q"
    using q by (intro mult_right_mono round_half_even_bounds) simp
  also have "\<dots> = 2 powi (expo x - 53)"
    by (simp add: q_def power_int_diff)
  finally show ?thesis .
qed

lemma fl_rel_error: "\<bar>fl x - x\<bar> \<le> \<bar>x\<bar> / 2 ^ 53"
proof (cases "x = 0")
  case True
  then show ?thesis by simp
next
  case False
  have "\<bar>fl x - x\<bar> \<le> 2 powi (expo x - 53)" using False by (rule fl_error)
  also have "\<dots> = 2 powi (expo x) / 2 ^ 53" by (simp add: power_int_diff)
  also have "\<dots> \<le> \<bar>x\<bar> / 2 ^ 53"
    using expo_bounds(1) [OF False] by (simp add: divide_right_mono)
  finally show ?thesis .
qed

lemma fl_binade:
  assumes "0 < x"
  shows "2 powi (expo x) \<le> fl x" and "fl x \<le> 2 powi (expo x + 1)"
proof -
  define q :: rat where "q = 2 powi (expo x - 52)"
  have q: "0 < q" by (simp add: q_def)
  from assms have nz: "x \<noteq> 0" by simp
  have lo: "2 powi (expo x) \<le> x" and hi: "x < 2 powi (expo x + 1)"
    using expo_bounds [OF nz] assms by simp_all
  have e: "(2::rat) powi (expo x) = 2 ^ 52 * q" "(2::rat) powi (expo x + 1) = 2 ^ 53 * q"
    by (simp_all add: q_def power_int_diff power_int_add)
  have "of_int (2 ^ 52) \<le> x / q" using lo q by (simp add: e pos_le_divide_eq)
  then have "round_half_even (of_int (2 ^ 52)) \<le> round_half_even (x / q)"
    by (rule round_half_even_mono)
  then have m1: "2 ^ 52 \<le> round_half_even (x / q)"
    by (simp only: round_half_even_of_int)
  have "x / q \<le> of_int (2 ^ 53)" using hi q by (simp add: e pos_divide_le_eq)
  then have "round_half_even (x / q) \<le> round_half_even (of_int (2 ^ 53))"
    by (rule round_half_even_mono)
  then have m2: "round_half_even (x / q) \<le> 2 ^ 53"
    by (simp only: round_half_even_of_int)
  have f: "fl x = of_int (round_half_even (x / q)) * q"
    using nz by (simp add: fl_def q_def)
  from m1 have "(of_int (2 ^ 52) :: rat) \<le> of_int (round_half_even (x / q))"
    by (simp only: of_int_le_iff)
  then show "2 powi (expo x) \<le> fl x"
    using q by (simp add: f e)
  from m2 have "(of_int (round_half_even (x / q)) :: rat) \<le> of_int (2 ^ 53)"
    by (simp only: of_int_le_iff)
  then show "fl x \<le> 2 powi (expo x + 1)"
    using q by (simp add: f e)
qed

lemma fl_pos:
  assumes "0 < x"
  shows "0 < fl x"
proof -
  have "(0 :: rat) < 2 powi (expo x)"
    by simp
  also have "\<dots> \<le> fl x"
    using assms by (rule fl_binade(1))
  finally show ?thesis .
qed

lemma expo_mono:
  assumes "0 < x" and "x \<le> y"
  shows "expo x \<le> expo y"
proof (rule ccontr)
  assume "\<not> expo x \<le> expo y"
  then have "expo y + 1 \<le> expo x" by simp
  then have "(2::rat) powi (expo y + 1) \<le> 2 powi (expo x)"
    by (intro power_int_increasing) simp_all
  moreover from assms have "x \<noteq> 0" "y \<noteq> 0" by simp_all
  then have "2 powi (expo x) \<le> \<bar>x\<bar>" "\<bar>y\<bar> < 2 powi (expo y + 1)"
    by (simp_all add: expo_bounds)
  ultimately show False using assms by simp
qed

lemma fl_mono_pos:
  assumes "0 < x" and "x \<le> y"
  shows "fl x \<le> fl y"
proof (cases "expo x = expo y")
  case True
  define q :: rat where "q = 2 powi (expo y - 52)"
  have q: "0 < q" by (simp add: q_def)
  from assms q have "x / q \<le> y / q" by (simp add: divide_right_mono)
  then have "round_half_even (x / q) \<le> round_half_even (y / q)"
    by (rule round_half_even_mono)
  then have "(of_int (round_half_even (x / q)) :: rat) \<le> of_int (round_half_even (y / q))"
    by (simp only: of_int_le_iff)
  with q have "of_int (round_half_even (x / q)) * q \<le> of_int (round_half_even (y / q)) * q"
    by (simp add: mult_right_mono)
  moreover from assms have "x \<noteq> 0" "y \<noteq> 0" by simp_all
  ultimately show ?thesis by (simp add: fl_def True q_def)
next
  case False
  with expo_mono [OF assms] have "expo x + 1 \<le> expo y" by simp
  then have "(2::rat) powi (expo x + 1) \<le> 2 powi (expo y)"
    by (intro power_int_increasing) simp_all
  moreover from assms have "0 < y" by simp
  ultimately show ?thesis
    using fl_binade(2) [OF assms(1)] fl_binade(1) [OF \<open>0 < y\<close>] by linarith
qed

lemma fl_mono:
  assumes "x \<le> y"
  shows "fl x \<le> fl y"
proof -
  consider "0 < x" | "x \<le> 0" "0 < y" | "x < 0" "y \<le> 0" "y < 0" | "y = 0" "x \<le> 0"
    using assms by fastforce
  then show ?thesis
  proof cases
    case 1
    then show ?thesis using assms by (rule fl_mono_pos)
  next
    case 2
    then have "0 < fl y" by (simp add: fl_pos)
    moreover have "fl x \<le> 0"
    proof (cases "x = 0")
      case True then show ?thesis by simp
    next
      case False
      with 2 have "0 < - x" by simp
      then have "0 < fl (- x)" by (rule fl_pos)
      then show ?thesis by (simp add: fl_minus)
    qed
    ultimately show ?thesis by simp
  next
    case 3
    then have "0 < - y" "- y \<le> - x" using assms by simp_all
    then have "fl (- y) \<le> fl (- x)" by (rule fl_mono_pos)
    then show ?thesis by (simp add: fl_minus)
  next
    case 4
    show ?thesis
    proof (cases "x = 0")
      case True with 4 show ?thesis by simp
    next
      case False
      with 4 have "0 < - x" by simp
      then have "0 < fl (- x)" by (rule fl_pos)
      with 4 show ?thesis by (simp add: fl_minus)
    qed
  qed
qed


lemma power_int_2_less_cancel:
  assumes "(2::rat) powi a < 2 powi b"
  shows "a < b"
proof (rule ccontr)
  assume "\<not> a < b"
  then have "b \<le> a" by simp
  then have "(2::rat) powi b \<le> 2 powi a"
    by (intro power_int_increasing) simp_all
  with assms show False by simp
qed

lemma fl_exact:
  assumes "x / 2 powi (expo x - 52) = of_int k"
  shows "fl x = x"
proof (cases "x = 0")
  case True
  then show ?thesis by simp
next
  case False
  have "fl x = of_int k * 2 powi (expo x - 52)"
    using False by (simp add: fl_def assms)
  also have "\<dots> = x"
    by (simp add: assms [symmetric])
  finally show ?thesis .
qed

lemma fl_scaled_int_less:
  assumes "\<bar>m\<bar> < 2 ^ 53"
  shows "fl (of_int m * 2 powi c) = of_int m * 2 powi c"
proof (cases "m = 0")
  case True
  then show ?thesis by simp
next
  case False
  define x :: rat where "x = of_int m * 2 powi c"
  have nz: "x \<noteq> 0" using False by (simp add: x_def)
  have ax: "\<bar>x\<bar> = of_int \<bar>m\<bar> * 2 powi c"
    by (simp add: x_def abs_mult)
  from assms have "(of_int \<bar>m\<bar> :: rat) < of_int (2 ^ 53)"
    by (simp only: of_int_less_iff)
  then have "\<bar>x\<bar> < 2 ^ 53 * 2 powi c"
    by (simp add: ax)
  also have "\<dots> = 2 powi (c + 53)"
    by (simp add: power_int_add)
  finally have "2 powi (expo x) < (2::rat) powi (c + 53)"
    using expo_bounds(1) [OF nz] by simp
  then have "expo x < c + 53" by (rule power_int_2_less_cancel)
  then have n: "0 \<le> c + 52 - expo x" by simp
  have "x / 2 powi (expo x - 52) = of_int m * 2 powi (c + 52 - expo x)"
    by (simp add: x_def power_int_diff power_int_add)
  also have "\<dots> = of_int m * 2 ^ nat (c + 52 - expo x)"
    using n by (simp add: power_int_nonneg_exp)
  also have "\<dots> = of_int (m * 2 ^ nat (c + 52 - expo x))"
    by simp
  finally have "fl x = x" by (rule fl_exact)
  then show ?thesis by (simp add: x_def)
qed

lemma fl_scaled_int:
  assumes "\<bar>m\<bar> \<le> 2 ^ 53"
  shows "fl (of_int m * 2 powi c) = of_int m * 2 powi c"
proof (cases "\<bar>m\<bar> < 2 ^ 53")
  case True
  then show ?thesis by (rule fl_scaled_int_less)
next
  case False
  with assms have "\<bar>m\<bar> = 2 ^ 53" by simp
  then consider "m = 2 ^ 53" | "m = - (2 ^ 53)" by (auto simp: abs_if split: if_splits)
  then show ?thesis
  proof cases
    case 1
    have "of_int m * (2::rat) powi c = of_int (2 ^ 52) * 2 powi (c + 1)"
      by (simp add: 1 power_int_add)
    moreover have "fl (of_int (2 ^ 52) * 2 powi (c + 1)) = of_int (2 ^ 52) * 2 powi (c + 1)"
      by (rule fl_scaled_int_less) simp
    ultimately show ?thesis by simp
  next
    case 2
    have "of_int m * (2::rat) powi c = of_int (- (2 ^ 52)) * 2 powi (c + 1)"
      by (simp add: 2 power_int_add)
    moreover have "fl (of_int (- (2 ^ 52)) * 2 powi (c + 1)) = of_int (- (2 ^ 52)) * 2 powi (c + 1)"
      by (rule fl_scaled_int_less) simp
    ultimately show ?thesis by simp
  qed
qed

lemma fl_of_int:
  assumes "\<bar>k\<bar> \<le> 2 ^ 53"
  shows "fl (of_int k) = of_int k"
  using fl_scaled_int [OF assms, of 0] by simp

lemma fl_mantissa:
  assumes "x \<noteq> 0"
  obtains m where "fl x = of_int m * 2 powi (expo x - 52)" and "\<bar>m\<bar> \<le> 2 ^ 53"
proof -
  define m where "m = round_half_even (x / 2 powi (expo x - 52))"
  have f: "fl x = of_int m * 2 powi (expo x - 52)"
    using assms by (simp add: fl_def m_def)
  have "\<bar>fl x\<bar> \<le> 2 powi (expo x + 1)"
  proof (cases "0 < x")
    case True
    from fl_binade(2) [OF True] fl_pos [OF True] show ?thesis by simp
  next
    case False
    with assms have p: "0 < - x" by simp
    from fl_binade(2) [OF p] fl_pos [OF p] show ?thesis by (simp add: fl_minus)
  qed
  also have "\<dots> = 2 ^ 53 * 2 powi (expo x - 52)"
    by (simp add: power_int_add power_int_diff)
  finally have "\<bar>of_int m :: rat\<bar> * 2 powi (expo x - 52) \<le> 2 ^ 53 * 2 powi (expo x - 52)"
    by (simp add: f abs_mult)
  then have "\<bar>of_int m :: rat\<bar> \<le> 2 ^ 53"
    by (simp add: mult_le_cancel_right)
  then have "(of_int \<bar>m\<bar> :: rat) \<le> of_int (2 ^ 53)" by simp
  then have "\<bar>m\<bar> \<le> 2 ^ 53" by (simp only: of_int_le_iff)
  with f that show ?thesis by blast
qed

lemma fl_idem [simp]: "fl (fl x) = fl x"
proof (cases "x = 0")
  case True
  then show ?thesis by simp
next
  case False
  then obtain m where "fl x = of_int m * 2 powi (expo x - 52)" and "\<bar>m\<bar> \<le> 2 ^ 53"
    by (rule fl_mantissa)
  then show ?thesis by (simp add: fl_scaled_int)
qed

lemma double_large_is_int:
  assumes "fl a = a" and "2 ^ 52 \<le> \<bar>a\<bar>"
  shows "\<exists>k. a = of_int k"
proof -
  from assms(2) have nz: "a \<noteq> 0" by auto
  have "(2::rat) powi 52 \<le> \<bar>a\<bar>" using assms(2) by simp
  also have "\<bar>a\<bar> < 2 powi (expo a + 1)" using nz by (rule expo_bounds)
  finally have "52 < expo a + 1" by (rule power_int_2_less_cancel)
  then have n: "0 \<le> expo a - 52" by simp
  from nz obtain m where "fl a = of_int m * 2 powi (expo a - 52)"
    by (rule fl_mantissa)
  with assms(1) have "a = of_int m * 2 ^ nat (expo a - 52)"
    using n by (simp add: power_int_nonneg_exp)
  then have "a = of_int (m * 2 ^ nat (expo a - 52))" by simp
  then show ?thesis ..
qed

section \<open>Properties of the numbers\<close>

lemma fl_dval [simp]: "fl (dval d) = dval d"
  using dval [of d] by simp

lemma dval_double_of [simp]: "dval (double_of x) = fl x"
  by (simp add: double_of_def Abs_double_inverse)

lemma double_of_dval [simp]: "double_of (dval d) = d"
  by (simp add: double_of_def dval_inverse)

text \<open>
  The equations by which the examples are evaluated: a float is evaluated to the rational
  it denotes.
\<close>

lemma double_abstype [code abstype]: "Abs_double (dval d) = d"
  by (rule dval_inverse)

lemma double_of_code [code abstract]: "dval (double_of x) = fl x"
  by simp

text \<open>
  Known values of Python: \<open>0.1 + 0.2\<close> is \<open>0.30000000000000004\<close>, \<open>round(2.675, 2)\<close> is
  \<open>2.67\<close>, \<open>1.01 - 1.0\<close> is above \<open>0.01\<close>, \<open>7 / 100 * 100\<close> is
  \<open>7.000000000000001\<close> and \<open>1e16 + 1.0\<close> is \<open>1e16\<close>.
\<close>

lemma known_floats:
  "py_add (NFloat (double_of (1 / 10))) (NFloat (double_of (1 / 5)))
     = NFloat (double_of (30000000000000004 / 100000000000000000))"
  "py_round (NFloat (double_of (2675 / 1000))) 2 = NFloat (double_of (267 / 100))"
  "nval (py_abs (py_sub (NFloat (double_of (101 / 100))) (NFloat (double_of 1))))
     > dval (double_of (1 / 100))"
  "py_mul (quotient (NInt 7) (NInt 100)) (NInt 100)
     = NFloat (double_of (7000000000000001 / 1000000000000000))"
  "py_add (NFloat (double_of (10 ^ 16))) (NFloat (double_of 1)) = NFloat (double_of (10 ^ 16))"
  by code_simp+

lemma double_of_eq_iff: "double_of x = double_of y \<longleftrightarrow> fl x = fl y"
proof
  assume "double_of x = double_of y"
  then have "dval (double_of x) = dval (double_of y)"
    by simp
  then show "fl x = fl y"
    by simp
next
  assume "fl x = fl y"
  then show "double_of x = double_of y"
    by (simp add: double_of_def)
qed

lemma fl_abs: "fl \<bar>x\<bar> = \<bar>fl x\<bar>"
proof (cases "0 \<le> x")
  case True
  then have "0 \<le> fl x"
    using fl_mono [of 0 x] by simp
  with True show ?thesis
    by simp
next
  case False
  then have "fl x \<le> 0"
    using fl_mono [of x 0] by simp
  with False show ?thesis
    by (simp add: fl_minus)
qed

lemma nval_py_neg [simp]: "nval (py_neg x) = - nval x"
  by (cases x) (simp_all add: fl_minus)

lemma nval_py_abs [simp]: "nval (py_abs x) = \<bar>nval x\<bar>"
  by (cases x) (simp_all add: fl_abs)

lemma py_add_zero_float [simp]: "py_add (NInt 0) (NFloat d) = NFloat d"
  by simp

lemma py_div_nonzero: "nval b \<noteq> 0 \<Longrightarrow> py_div a b = Inr (quotient a b)"
  by (simp add: py_div_def)

subsection \<open>Rounding to decimals is monotone\<close>

lemma round_decimal_mono:
  assumes "a \<le> b"
  shows "fl (of_int (round_half_even (a * 10 ^ n)) / 10 ^ n)
           \<le> fl (of_int (round_half_even (b * 10 ^ n)) / 10 ^ n)"
proof -
  have "a * 10 ^ n \<le> b * 10 ^ n"
    using assms by (simp add: mult_right_mono)
  then have "round_half_even (a * 10 ^ n) \<le> round_half_even (b * 10 ^ n)"
    by (rule round_half_even_mono)
  then have "(of_int (round_half_even (a * 10 ^ n)) :: rat) / 10 ^ n
      \<le> of_int (round_half_even (b * 10 ^ n)) / 10 ^ n"
    by (simp add: divide_right_mono)
  then show ?thesis
    by (rule fl_mono)
qed

lemma round_decimal_of_int:
  "(of_int (round_half_even (of_int k * 10 ^ n)) :: rat) / 10 ^ n = of_int k"
proof -
  have "(of_int k :: rat) * 10 ^ n = of_int (k * 10 ^ n)"
    by simp
  then have "round_half_even (of_int k * 10 ^ n) = k * 10 ^ n"
    by (simp only: round_half_even_of_int)
  then show ?thesis
    by simp
qed

lemma round_decimal_le_int:
  assumes d: "fl a = a" and le: "a \<le> of_int j"
  shows "fl (of_int (round_half_even (a * 10 ^ n)) / 10 ^ n) \<le> of_int j"
proof -
  let ?D = "\<lambda>x :: rat. (of_int (round_half_even (x * 10 ^ n)) :: rat) / 10 ^ n"
  have large: "fl (?D a) = a" if big: "2 ^ 52 \<le> \<bar>a\<bar>"
  proof -
    obtain k where "a = of_int k"
      using double_large_is_int [OF d big] by blast
    then show ?thesis
      using d by (simp only: round_decimal_of_int)
  qed
  have small: "fl (?D a) \<le> of_int m" if "a \<le> of_int m" "\<bar>m\<bar> \<le> 2 ^ 53" for m
  proof -
    have "fl (?D a) \<le> fl (?D (of_int m))"
      using that(1) by (rule round_decimal_mono)
    also have "\<dots> = of_int m"
      using that(2) by (simp only: round_decimal_of_int fl_of_int)
    finally show ?thesis .
  qed
  consider "\<bar>j\<bar> \<le> 2 ^ 53" | "2 ^ 53 < j" | "j < - (2 ^ 53)"
    by linarith
  then show ?thesis
  proof cases
    case 1
    then show ?thesis
      using le by (rule small [rotated])
  next
    case 2
    show ?thesis
    proof (cases "a \<le> 2 ^ 53")
      case True
      then have "a \<le> of_int (2 ^ 53)"
        by simp
      then have "fl (?D a) \<le> of_int (2 ^ 53)"
        by (rule small) simp
      also have "\<dots> \<le> of_int j"
        using 2 by simp
      finally show ?thesis .
    next
      case False
      then have "2 ^ 52 \<le> \<bar>a\<bar>"
        by simp
      then show ?thesis
        using large le by simp
    qed
  next
    case 3
    then have "(of_int j :: rat) < - (2 ^ 53)"
      by (metis of_int_less_iff of_int_minus of_int_numeral of_int_power)
    with le have "2 ^ 52 \<le> \<bar>a\<bar>"
      by simp
    then show ?thesis
      using large le by simp
  qed
qed

lemma round_decimal_minus:
  "fl (of_int (round_half_even (- a * 10 ^ n)) / 10 ^ n)
     = - fl (of_int (round_half_even (a * 10 ^ n)) / 10 ^ n)"
proof -
  have "round_half_even (- a * 10 ^ n) = - round_half_even (a * 10 ^ n)"
    using round_half_even_minus [of "a * 10 ^ n"] by simp
  then show ?thesis
    by (simp add: fl_minus)
qed

lemma round_decimal_ge_int:
  assumes d: "fl b = b" and le: "of_int i \<le> b"
  shows "of_int i \<le> fl (of_int (round_half_even (b * 10 ^ n)) / 10 ^ n)"
proof -
  have "fl (- b) = - b"
    using d by (simp add: fl_minus)
  moreover have "- b \<le> of_int (- i)"
    using le by simp
  ultimately have "fl (of_int (round_half_even (- b * 10 ^ n)) / 10 ^ n) \<le> of_int (- i)"
    by (rule round_decimal_le_int)
  then have "- fl (of_int (round_half_even (b * 10 ^ n)) / 10 ^ n) \<le> - of_int i"
    unfolding round_decimal_minus by simp
  then show ?thesis
    by linarith
qed

lemma py_round_mono:
  assumes "nval x \<le> nval y"
  shows "nval (py_round x n) \<le> nval (py_round y n)"
proof (cases x)
  case xi: (NInt i)
  show ?thesis
  proof (cases y)
    case (NInt j)
    with xi assms show ?thesis
      by simp
  next
    case (NFloat e)
    with xi assms show ?thesis
      by (simp add: round_decimal_ge_int)
  qed
next
  case xf: (NFloat d)
  show ?thesis
  proof (cases y)
    case (NInt j)
    with xf assms show ?thesis
      by (simp add: round_decimal_le_int)
  next
    case (NFloat e)
    with xf assms show ?thesis
      by (simp add: round_decimal_mono)
  qed
qed

subsection \<open>The error of a chain of additions\<close>

lemma near_exact: "near 0 a a"
  by (simp add: near_def)

lemma near_nonneg:
  assumes "0 \<le> a" "near k v a"
  shows "0 \<le> v"
proof -
  have "0 \<le> (1 - 1 / 2 ^ 53 :: rat) ^ k * a"
    using assms(1) by simp
  with assms(2) show ?thesis
    by (simp add: near_def)
qed

lemma near_mono:
  assumes "0 \<le> a" "k \<le> l" "near k v a"
  shows "near l v a"
proof -
  have "(1 - 1 / 2 ^ 53 :: rat) ^ l \<le> (1 - 1 / 2 ^ 53) ^ k"
    using assms(2) by (intro power_decreasing) simp_all
  then have "(1 - 1 / 2 ^ 53 :: rat) ^ l * a \<le> (1 - 1 / 2 ^ 53) ^ k * a"
    using assms(1) by (rule mult_right_mono)
  moreover have "(1 + 1 / 2 ^ 53 :: rat) ^ k \<le> (1 + 1 / 2 ^ 53) ^ l"
    using assms(2) by (intro power_increasing) simp_all
  then have "(1 + 1 / 2 ^ 53 :: rat) ^ k * a \<le> (1 + 1 / 2 ^ 53) ^ l * a"
    using assms(1) by (rule mult_right_mono)
  ultimately show ?thesis
    using assms(3) by (simp add: near_def)
qed

lemma near_add:
  assumes "near k v a" "near k w b"
  shows "near k (v + w) (a + b)"
  using assms by (simp add: near_def distrib_left add_mono)

lemma near_fl:
  assumes a: "0 \<le> a" and w: "near k v a"
  shows "near (Suc k) (fl v) a"
proof -
  have v: "0 \<le> v"
    using a w by (rule near_nonneg)
  have "\<bar>fl v - v\<bar> \<le> v / 2 ^ 53"
    using fl_rel_error [of v] v by simp
  then have "fl v - v \<le> v / 2 ^ 53" and "- (fl v - v) \<le> v / 2 ^ 53"
    by (simp_all only: abs_le_iff)
  then have lo: "(1 - 1 / 2 ^ 53) * v \<le> fl v" and hi: "fl v \<le> (1 + 1 / 2 ^ 53) * v"
    by (simp_all add: algebra_simps)
  have "(1 - 1 / 2 ^ 53 :: rat) * ((1 - 1 / 2 ^ 53) ^ k * a) \<le> (1 - 1 / 2 ^ 53) * v"
    using w by (intro mult_left_mono) (simp_all add: near_def)
  with lo have "(1 - 1 / 2 ^ 53 :: rat) * ((1 - 1 / 2 ^ 53) ^ k * a) \<le> fl v"
    by (rule order_trans [rotated])
  moreover have "(1 + 1 / 2 ^ 53 :: rat) * v \<le> (1 + 1 / 2 ^ 53) * ((1 + 1 / 2 ^ 53) ^ k * a)"
    using w by (intro mult_left_mono) (simp_all add: near_def)
  with hi have "fl v \<le> (1 + 1 / 2 ^ 53) * ((1 + 1 / 2 ^ 53) ^ k * a)"
    by (rule order_trans)
  ultimately show ?thesis
    unfolding near_def power_Suc mult.assoc by (rule conjI)
qed

lemma near_to_double:
  assumes "0 \<le> a" "near k (nval x) a"
  shows "near (Suc k) (dval (to_double x)) a"
proof (cases x)
  case (NInt i)
  with assms show ?thesis
    by (simp add: near_fl)
next
  case (NFloat d)
  with assms show ?thesis
    using near_mono [of a k "Suc k"] by simp
qed

lemma py_add_near:
  assumes a: "0 \<le> a" and b: "0 \<le> b"
    and x: "near k (nval x) a" and y: "near k (nval y) b"
  shows "near (k + 2) (nval (py_add x y)) (a + b)"
proof (cases "\<exists>i j. x = NInt i \<and> y = NInt j")
  case True
  then obtain i j where "x = NInt i" "y = NInt j"
    by blast
  then have "nval (py_add x y) = nval x + nval y"
    by simp
  moreover have "near k (nval x + nval y) (a + b)"
    using x y by (rule near_add)
  ultimately show ?thesis
    using near_mono [of "a + b" k "k + 2"] a b by simp
next
  case False
  then have "nval (py_add x y) = fl (dval (to_double x) + dval (to_double y))"
    by (cases x; cases y) simp_all
  moreover have "near (Suc k) (dval (to_double x) + dval (to_double y)) (a + b)"
    using a b x y by (intro near_add near_to_double)
  then have "near (Suc (Suc k)) (fl (dval (to_double x) + dval (to_double y))) (a + b)"
    using a b by (intro near_fl) simp_all
  ultimately show ?thesis
    by simp
qed

lemma power_one_plus_bound:
  fixes u :: rat
  assumes u: "0 \<le> u" and k: "of_nat k * u \<le> 1"
  shows "(1 + u) ^ k * (1 - of_nat k * u) \<le> 1"
  using k
proof (induction k)
  case 0
  show ?case
    by simp
next
  case (Suc k)
  have ku: "of_nat k * u \<le> 1"
    using Suc.prems u by (simp add: algebra_simps)
  have "(1 + u) * (1 - of_nat (Suc k) * u) \<le> 1 - of_nat k * u"
  proof -
    have "(1 + u) * (1 - of_nat (Suc k) * u) = 1 - of_nat k * u - of_nat (Suc k) * (u * u)"
      by (simp add: algebra_simps)
    moreover have "0 \<le> of_nat (Suc k) * (u * u)"
      using u by simp
    ultimately show ?thesis
      by linarith
  qed
  then have "(1 + u) ^ k * ((1 + u) * (1 - of_nat (Suc k) * u))
      \<le> (1 + u) ^ k * (1 - of_nat k * u)"
    using u by (intro mult_left_mono) simp_all
  also have "\<dots> \<le> 1"
    using Suc.IH ku by simp
  finally show ?case
    by (simp add: ac_simps)
qed

lemma power_one_plus_le:
  fixes u :: rat
  assumes u: "0 \<le> u" and k: "2 * (of_nat k * u) \<le> 1"
  shows "(1 + u) ^ k \<le> 1 + 2 * (of_nat k * u)"
proof -
  let ?t = "of_nat k * u"
  have t: "0 \<le> ?t"
    using u by simp
  have "(1 + u) ^ k * (1 - ?t) \<le> 1"
    by (rule power_one_plus_bound [OF u]) (use k t in linarith)
  moreover have "1 \<le> (1 + 2 * ?t) * (1 - ?t)"
  proof -
    have "(1 + 2 * ?t) * (1 - ?t) = 1 + ?t * (1 - 2 * ?t)"
      by (simp add: algebra_simps)
    moreover have "0 \<le> ?t * (1 - 2 * ?t)"
      by (rule mult_nonneg_nonneg) (use t k in simp_all)
    ultimately show ?thesis
      by simp
  qed
  ultimately have "(1 + u) ^ k * (1 - ?t) \<le> (1 + 2 * ?t) * (1 - ?t)"
    by simp
  moreover have "0 < 1 - ?t"
    using k t by simp
  ultimately show ?thesis
    by (simp only: mult_le_cancel_right)
qed

lemma power_one_minus_ge:
  fixes u :: rat
  assumes u: "0 \<le> u" "u \<le> 1"
  shows "1 - of_nat k * u \<le> (1 - u) ^ k"
proof (induction k)
  case 0
  show ?case
    by simp
next
  case (Suc k)
  have "1 - of_nat (Suc k) * u \<le> (1 - of_nat k * u) * (1 - u)"
  proof -
    have "(1 - of_nat k * u) * (1 - u) = 1 - of_nat (Suc k) * u + of_nat k * (u * u)"
      by (simp add: algebra_simps)
    moreover have "0 \<le> of_nat k * (u * u)"
      using u by simp
    ultimately show ?thesis
      by linarith
  qed
  also have "\<dots> \<le> (1 - u) ^ k * (1 - u)"
    using Suc.IH u by (intro mult_right_mono) simp_all
  finally show ?case
    by (simp add: mult.commute)
qed

lemma near_bounds:
  assumes a: "0 \<le> a" and k: "k \<le> 2 ^ 52" and w: "near k v a"
  shows "a - of_nat k / 2 ^ 53 * a \<le> v" and "v \<le> a + of_nat k / 2 ^ 52 * a"
proof -
  let ?u = "1 / 2 ^ 53 :: rat"
  have ku: "2 * (of_nat k * ?u) \<le> 1"
  proof -
    have "(of_nat k :: rat) \<le> of_nat (2 ^ 52)"
      using k by (simp only: of_nat_le_iff)
    then show ?thesis
      by simp
  qed
  have t: "2 * (of_nat k * ?u) = of_nat k / 2 ^ 52"
    by simp
  have "(1 + ?u) ^ k \<le> 1 + 2 * (of_nat k * ?u)"
    using ku by (intro power_one_plus_le) simp_all
  then have "(1 + ?u) ^ k * a \<le> (1 + 2 * (of_nat k * ?u)) * a"
    using a by (rule mult_right_mono)
  with w show "v \<le> a + of_nat k / 2 ^ 52 * a"
    unfolding t by (simp add: near_def algebra_simps)
  have "1 - of_nat k * ?u \<le> (1 - ?u) ^ k"
    by (intro power_one_minus_ge) simp_all
  then have "(1 - of_nat k * ?u) * a \<le> (1 - ?u) ^ k * a"
    using a by (rule mult_right_mono)
  with w show "a - of_nat k / 2 ^ 53 * a \<le> v"
    by (simp add: near_def algebra_simps)
qed


lemma near_diff_bound:
  assumes a: "0 \<le> a" and k: "k \<le> 2 ^ 52" and v: "near k v a" and w: "near k w a"
  shows "\<bar>v - w\<bar> \<le> 3 * of_nat k / 2 ^ 53 * a"
proof -
  define p where "p = of_nat k / 2 ^ 53 * a"
  define q where "q = of_nat k / 2 ^ 52 * a"
  have "3 * of_nat k / 2 ^ 53 * a = p + q"
    by (simp add: p_def q_def field_simps)
  moreover have "a - p \<le> v" "v \<le> a + q" "a - p \<le> w" "w \<le> a + q"
    unfolding p_def q_def by (rule near_bounds [OF a k v] near_bounds [OF a k w])+
  ultimately show ?thesis
    by linarith
qed

section \<open>Properties of the aggregator\<close>

lemma near_zero: "near k 0 0"
  by (simp add: near_def)

lemma near_int_zero: "near k (nval (NInt 0)) 0"
  by (simp add: near_zero)

lemma near_self:
  assumes "0 \<le> a"
  shows "near k a a"
  using near_mono [OF assms _ near_exact, of k] by simp

lemma good_recordsD:
  assumes "good_records (c # cs)"
  shows "\<exists>x. amount_of c = Inr x \<and> amount_val c = nval x \<and> 0 \<le> nval x" and "good_records cs"
  using assms by (auto simp: good_records_def well_formed_def amount_val_def split: sum.splits)

lemma good_records_sum_nonneg:
  "good_records cs \<Longrightarrow> 0 \<le> sum_list (map amount_val cs)"
  by (induction cs) (auto simp: good_records_def)

text \<open>The sum of the amounts of an account, with two roundings for every record.\<close>

lemma sum_amounts_near:
  assumes "good_records cs" and "near k (nval acc) a" and "0 \<le> a"
  shows "\<exists>t. sum_amounts acc cs = Inr t
           \<and> near (k + 2 * length cs) (nval t) (a + sum_list (map amount_val cs))"
  using assms
proof (induction cs arbitrary: acc k a)
  case Nil
  then show ?case
    by simp
next
  case (Cons c cs)
  from good_recordsD [OF Cons.prems(1)]
  obtain x where x: "amount_of c = Inr x" "amount_val c = nval x" "0 \<le> nval x"
    and cs: "good_records cs"
    by blast
  have "near (k + 2) (nval (py_add acc x)) (a + nval x)"
    using Cons.prems(3) x(3) Cons.prems(2) near_self [OF x(3)] by (rule py_add_near)
  moreover have "0 \<le> a + nval x"
    using Cons.prems(3) x(3) by simp
  ultimately obtain t where "sum_amounts (py_add acc x) cs = Inr t"
    and "near (k + 2 + 2 * length cs) (nval t) (a + nval x + sum_list (map amount_val cs))"
    using Cons.IH [OF cs] by blast
  with x show ?case
    by (simp add: add.assoc)
qed

text \<open>
  An item assignment in a dict whose values are sums: the value of the key grows by
  \<open>x\<close>, the other values stay.
\<close>

lemma alist_update_rel:
  fixes x :: rat
  assumes "list_all2 (\<lambda>p s. P (snd p) s) al ss"
    and weaken: "\<And>v s. P v s \<Longrightarrow> Q v s"
    and "map_of al key = None \<Longrightarrow> Q v' x"
    and "\<And>v s. map_of al key = Some v \<Longrightarrow> P v s \<Longrightarrow> Q v' (s + x)"
  shows "\<exists>ss'. list_all2 (\<lambda>p s. Q (snd p) s) (AList.update key v' al) ss'
           \<and> sum_list ss' = sum_list ss + x"
  using assms(1,3,4)
proof (induction al arbitrary: ss)
  case Nil
  then have "list_all2 (\<lambda>p s. Q (snd p) s) (AList.update key v' []) [x]"
    by simp
  with Nil show ?case
    by fastforce
next
  case (Cons p al)
  from Cons.prems(1) obtain s ss0 where ss: "ss = s # ss0" and p: "P (snd p) s"
    and rest: "list_all2 (\<lambda>p s. P (snd p) s) al ss0"
    by (auto simp: list_all2_Cons1)
  show ?case
  proof (cases "fst p = key")
    case True
    then have "map_of (p # al) key = Some (snd p)"
      by (cases p) simp
    then have "Q v' (s + x)"
      using p by (rule Cons.prems(3))
    moreover have "list_all2 (\<lambda>p s. Q (snd p) s) al ss0"
      using rest by (rule list_all2_mono) (rule weaken)
    ultimately have "list_all2 (\<lambda>p s. Q (snd p) s) (AList.update key v' (p # al)) ((s + x) # ss0)"
      using True by simp
    moreover have "sum_list ((s + x) # ss0) = sum_list ss + x"
      using ss by simp
    ultimately show ?thesis
      by blast
  next
    case False
    then have m: "map_of (p # al) key = map_of al key"
      by (cases p) simp
    have "\<exists>ss'. list_all2 (\<lambda>p s. Q (snd p) s) (AList.update key v' al) ss'
        \<and> sum_list ss' = sum_list ss0 + x"
      using rest Cons.prems(2,3) unfolding m by (rule Cons.IH)
    then obtain ss' where "list_all2 (\<lambda>p s. Q (snd p) s) (AList.update key v' al) ss'"
      and "sum_list ss' = sum_list ss0 + x"
      by blast
    with False p ss have
      "list_all2 (\<lambda>p s. Q (snd p) s) (AList.update key v' (p # al)) (s # ss')"
      "sum_list (s # ss') = sum_list ss + x"
      by (simp_all add: weaken)
    then show ?thesis
      by blast
  qed
qed

lemma near_values_mono:
  assumes "list_all2 (\<lambda>p x. near k (nval (f p)) x \<and> 0 \<le> x) ps ss" and "k \<le> l"
  shows "list_all2 (\<lambda>p x. near l (nval (f p)) x \<and> 0 \<le> x) ps ss"
  using assms(1) by (rule list_all2_mono) (use assms(2) near_mono in blast)

lemma near_values_sum:
  assumes "list_all2 (\<lambda>p x. near k (nval (f p)) x \<and> 0 \<le> x) ps ss"
  shows "near k (sum_list (map (\<lambda>p. nval (f p)) ps)) (sum_list ss) \<and> 0 \<le> sum_list ss"
  using assms
proof (induction ps ss rule: list_all2_induct)
  case Nil
  show ?case
    by (simp add: near_zero)
next
  case (Cons p ps s ss)
  then show ?case
    by (simp add: near_add)
qed

text \<open>The loop over the records of an account that adds the amounts to the services.\<close>

lemma add_services_near:
  assumes "good_records cs"
    and "list_all2 (\<lambda>p x. near k (nval (snd p)) x \<and> 0 \<le> x) sv ss"
  shows "\<exists>sv' ss'. add_services sv cs = Inr sv'
           \<and> list_all2 (\<lambda>p x. near (k + 2 * length cs) (nval (snd p)) x \<and> 0 \<le> x) sv' ss'
           \<and> sum_list ss' = sum_list ss + sum_list (map amount_val cs)"
  using assms
proof (induction cs arbitrary: sv ss k)
  case Nil
  then show ?case
    by auto
next
  case (Cons c cs)
  from good_recordsD [OF Cons.prems(1)]
  obtain x where x: "amount_of c = Inr x" "amount_val c = nval x" "0 \<le> nval x"
    and cs: "good_records cs"
    by blast
  let ?key = "service_of c"
  let ?v = "py_add (get0 sv ?key) x"
  have "\<exists>ss1. list_all2 (\<lambda>p s. near (k + 2) (nval (snd p)) s \<and> 0 \<le> s)
           (AList.update ?key ?v sv) ss1 \<and> sum_list ss1 = sum_list ss + nval x"
  proof (rule alist_update_rel [where P = "\<lambda>v s. near k (nval v) s \<and> 0 \<le> s"])
    show "list_all2 (\<lambda>p s. near k (nval (snd p)) s \<and> 0 \<le> s) sv ss"
      by (rule Cons.prems(2))
  next
    fix v s assume "near k (nval v) s \<and> 0 \<le> s"
    then show "near (k + 2) (nval v) s \<and> 0 \<le> s"
      using near_mono [of s k "k + 2"] by simp
  next
    assume "map_of sv ?key = None"
    then have "get0 sv ?key = NInt 0"
      by (simp add: get0_def)
    moreover have "near (k + 2) (nval (py_add (NInt 0) x)) (0 + nval x)"
      using _ x(3) _ near_self [OF x(3)] by (rule py_add_near) (simp_all add: near_zero)
    ultimately show "near (k + 2) (nval ?v) (nval x) \<and> 0 \<le> nval x"
      using x(3) by simp
  next
    fix v s assume "map_of sv ?key = Some v" and vs: "near k (nval v) s \<and> 0 \<le> s"
    then have "get0 sv ?key = v"
      by (simp add: get0_def)
    moreover have "near (k + 2) (nval (py_add v x)) (s + nval x)"
      using _ x(3) _ near_self [OF x(3)] by (rule py_add_near) (use vs in simp_all)
    ultimately show "near (k + 2) (nval ?v) (s + nval x) \<and> 0 \<le> s + nval x"
      using x(3) vs by simp
  qed
  then obtain ss1 where
    "list_all2 (\<lambda>p s. near (k + 2) (nval (snd p)) s \<and> 0 \<le> s) (AList.update ?key ?v sv) ss1"
    and s1: "sum_list ss1 = sum_list ss + nval x"
    by blast
  from Cons.IH [OF cs this(1)]
  obtain sv' ss' where "add_services (AList.update ?key ?v sv) cs = Inr sv'"
    and "list_all2 (\<lambda>p x. near (k + 2 + 2 * length cs) (nval (snd p)) x \<and> 0 \<le> x) sv' ss'"
    and "sum_list ss' = sum_list ss1 + sum_list (map amount_val cs)"
    by blast
  with x s1 show ?case
    by (auto simp: add.assoc)
qed

text \<open>What one iteration of the outer loop does, for an account with good records.\<close>

lemma add_services_returns:
  "good_records cs \<Longrightarrow> \<exists>sv'. add_services sv cs = Inr sv'"
proof (induction cs arbitrary: sv)
  case Nil
  show ?case
    by simp
next
  case (Cons c cs)
  from good_recordsD [OF Cons.prems]
  obtain x where "amount_of c = Inr x" and "good_records cs"
    by blast
  with Cons.IH show ?case
    by simp
qed

lemma aggregate_account_Inr:
  assumes "good_records (costs (snd p))"
  shows "\<exists>t sv. sum_amounts (NInt 0) (costs (snd p)) = Inr t
    \<and> add_services (services (lookup_aggregate agg (business_unit (snd p)))) (costs (snd p))
        = Inr sv
    \<and> aggregate_account agg p =
        Inr (AList.update (business_unit (snd p))
              \<lparr>total = py_add (total (lookup_aggregate agg (business_unit (snd p)))) t,
               accounts = accounts (lookup_aggregate agg (business_unit (snd p))) @
                 [\<lparr>entry_id = fst p, entry_name = acct_name (snd p), entry_total = t\<rparr>],
               services = sv\<rparr> agg)"
proof -
  obtain t where t: "sum_amounts (NInt 0) (costs (snd p)) = Inr t"
    using sum_amounts_near [OF assms near_int_zero, of 0] by auto
  obtain sv where
    "add_services (services (lookup_aggregate agg (business_unit (snd p)))) (costs (snd p)) = Inr sv"
    using add_services_returns [OF assms] by blast
  with t show ?thesis
    by (simp add: aggregate_account_def lookup_aggregate_def Let_def)
qed

lemma lookup_aggregate_update:
  "lookup_aggregate (AList.update bu a agg) bu' = (if bu' = bu then a else lookup_aggregate agg bu')"
  by (simp add: lookup_aggregate_def update_conv')

lemma length_update_le: "length (AList.update k v al) \<le> Suc (length al)"
  by (induction al) auto

lemma total_step:
  assumes c: "near k (nval c) s" and s: "0 \<le> s" and cs: "good_records cs"
    and t: "sum_amounts (NInt 0) cs = Inr t"
  shows "near (k + 2 + 2 * length cs) (nval (py_add c t)) (s + sum_list (map amount_val cs))"
proof -
  let ?A = "sum_list (map amount_val cs)"
  let ?l = "k + 2 * length cs"
  have A: "0 \<le> ?A"
    using cs by (rule good_records_sum_nonneg)
  have "near (0 + 2 * length cs) (nval t) (0 + ?A)"
    using sum_amounts_near [OF cs near_int_zero, of 0] t by auto
  then have tA: "near ?l (nval t) ?A"
    using near_mono [OF A, of "0 + 2 * length cs" ?l] by simp
  have c': "near ?l (nval c) s"
    using near_mono [OF s, of k ?l] c by simp
  have "near (?l + 2) (nval (py_add c t)) (s + ?A)"
    using s A c' tA by (rule py_add_near)
  then show ?thesis
    by (simp add: add.commute add.left_commute)
qed

lemma unit_near_empty: "unit_near k empty_aggregate 0"
  by (simp add: unit_near_def empty_aggregate_def near_zero)

lemma unit_nearD:
  assumes "unit_near k a s"
  shows "0 \<le> s" and "near k (nval (total a)) s"
    and "\<exists>xs. list_all2 (\<lambda>e x. near k (nval (entry_total e)) x \<and> 0 \<le> x) (accounts a) xs
           \<and> sum_list xs = s"
    and "\<exists>ss. list_all2 (\<lambda>p x. near k (nval (snd p)) x \<and> 0 \<le> x) (services a) ss
           \<and> sum_list ss = s"
    and "2 * length (accounts a) \<le> k" and "2 * length (services a) \<le> k"
  using assms unfolding unit_near_def by blast+

lemma unit_nearI:
  assumes "0 \<le> s" and "near k (nval (total a)) s"
    and "list_all2 (\<lambda>e x. near k (nval (entry_total e)) x \<and> 0 \<le> x) (accounts a) xs"
    and "sum_list xs = s"
    and "list_all2 (\<lambda>p x. near k (nval (snd p)) x \<and> 0 \<le> x) (services a) ss"
    and "sum_list ss = s"
    and "2 * length (accounts a) \<le> k" and "2 * length (services a) \<le> k"
  shows "unit_near k a s"
  using assms unfolding unit_near_def by blast

lemma unit_near_mono:
  assumes "unit_near k a s" and "k \<le> l"
  shows "unit_near l a s"
proof -
  from unit_nearD [OF assms(1)] obtain xs ss where s: "0 \<le> s"
    and t: "near k (nval (total a)) s"
    and ac: "list_all2 (\<lambda>e x. near k (nval (entry_total e)) x \<and> 0 \<le> x) (accounts a) xs"
    and xs: "sum_list xs = s"
    and sv: "list_all2 (\<lambda>p x. near k (nval (snd p)) x \<and> 0 \<le> x) (services a) ss"
    and ss: "sum_list ss = s"
    and n: "2 * length (accounts a) \<le> k" "2 * length (services a) \<le> k"
    by blast
  show ?thesis
  proof (rule unit_nearI)
    show "0 \<le> s"
      by (rule s)
    show "near l (nval (total a)) s"
      using s assms(2) t by (rule near_mono)
    show "list_all2 (\<lambda>e x. near l (nval (entry_total e)) x \<and> 0 \<le> x) (accounts a) xs"
      using ac assms(2) by (rule near_values_mono)
    show "list_all2 (\<lambda>p x. near l (nval (snd p)) x \<and> 0 \<le> x) (services a) ss"
      using sv assms(2) by (rule near_values_mono)
    show "sum_list xs = s" "sum_list ss = s"
      by (rule xs, rule ss)
    show "2 * length (accounts a) \<le> l" "2 * length (services a) \<le> l"
      using n assms(2) by simp_all
  qed
qed

lemma add_services_length:
  "add_services sv cs = Inr sv' \<Longrightarrow> length sv' \<le> length sv + length cs"
proof (induction cs arbitrary: sv)
  case Nil
  then show ?case
    by simp
next
  case (Cons c cs)
  from Cons.prems obtain x where x: "amount_of c = Inr x"
    by (cases "amount_of c") simp_all
  let ?sv = "AList.update (service_of c) (py_add (get0 sv (service_of c)) x) sv"
  from Cons.prems x have "add_services ?sv cs = Inr sv'"
    by simp
  then have "length sv' \<le> length ?sv + length cs"
    by (rule Cons.IH)
  moreover have "length ?sv \<le> Suc (length sv)"
    by (rule length_update_le)
  ultimately show ?case
    by simp
qed

text \<open>
  The aggregate of a unit after one more of its accounts: two roundings for the account and
  two for each of its records are added.
\<close>

lemma unit_near_step:
  assumes cur: "unit_near k cur s" and cs: "good_records cs"
    and t: "sum_amounts (NInt 0) cs = Inr t" and sv: "add_services (services cur) cs = Inr sv"
  shows "unit_near (k + 2 + 2 * length cs)
           \<lparr>total = py_add (total cur) t,
            accounts = accounts cur @ [\<lparr>entry_id = i, entry_name = n, entry_total = t\<rparr>],
            services = sv\<rparr>
           (s + sum_list (map amount_val cs))"
proof -
  let ?A = "sum_list (map amount_val cs)"
  let ?l = "k + 2 * length cs"
  let ?k = "k + 2 + 2 * length cs"
  from unit_nearD [OF cur] obtain xs ss where s: "0 \<le> s"
    and ct: "near k (nval (total cur)) s"
    and cac: "list_all2 (\<lambda>e x. near k (nval (entry_total e)) x \<and> 0 \<le> x) (accounts cur) xs"
    and xs: "sum_list xs = s"
    and csv: "list_all2 (\<lambda>p x. near k (nval (snd p)) x \<and> 0 \<le> x) (services cur) ss"
    and ss: "sum_list ss = s"
    and na: "2 * length (accounts cur) \<le> k" and ns: "2 * length (services cur) \<le> k"
    by blast
  have A: "0 \<le> ?A"
    using cs by (rule good_records_sum_nonneg)
  have "near (0 + 2 * length cs) (nval t) (0 + ?A)"
    using sum_amounts_near [OF cs near_int_zero, of 0] t by auto
  then have tA: "near ?k (nval t) ?A"
    using near_mono [OF A, of "0 + 2 * length cs" ?k] by simp
  have 1: "near ?k (nval (py_add (total cur) t)) (s + ?A)"
    using ct s cs t by (rule total_step)
  have "list_all2 (\<lambda>e x. near ?k (nval (entry_total e)) x \<and> 0 \<le> x) (accounts cur) xs"
    using cac by (rule near_values_mono) simp
  then have 2: "list_all2 (\<lambda>e x. near ?k (nval (entry_total e)) x \<and> 0 \<le> x)
      (accounts cur @ [\<lparr>entry_id = i, entry_name = n, entry_total = t\<rparr>]) (xs @ [?A])"
    using tA A by (intro list_all2_appendI) simp_all
  from add_services_near [OF cs csv] sv
  obtain ss' where l: "list_all2 (\<lambda>p x. near ?l (nval (snd p)) x \<and> 0 \<le> x) sv ss'"
    and 4: "sum_list ss' = sum_list ss + ?A"
    by auto
  from l have 3: "list_all2 (\<lambda>p x. near ?k (nval (snd p)) x \<and> 0 \<le> x) sv ss'"
    by (rule near_values_mono) simp
  have 5: "2 * length sv \<le> ?k"
    using add_services_length [OF sv] ns by simp
  show ?thesis
  proof (rule unit_nearI)
    show "0 \<le> s + ?A"
      using s A by simp
    show "near ?k (nval (total \<lparr>total = py_add (total cur) t,
            accounts = accounts cur @ [\<lparr>entry_id = i, entry_name = n, entry_total = t\<rparr>],
            services = sv\<rparr>)) (s + ?A)"
      using 1 by simp
    show "list_all2 (\<lambda>e x. near ?k (nval (entry_total e)) x \<and> 0 \<le> x)
        (accounts \<lparr>total = py_add (total cur) t,
            accounts = accounts cur @ [\<lparr>entry_id = i, entry_name = n, entry_total = t\<rparr>],
            services = sv\<rparr>) (xs @ [?A])"
      using 2 by simp
    show "sum_list (xs @ [?A]) = s + ?A"
      using xs by simp
    show "list_all2 (\<lambda>p x. near ?k (nval (snd p)) x \<and> 0 \<le> x)
        (services \<lparr>total = py_add (total cur) t,
            accounts = accounts cur @ [\<lparr>entry_id = i, entry_name = n, entry_total = t\<rparr>],
            services = sv\<rparr>) ss'"
      using 3 by simp
    show "sum_list ss' = s + ?A"
      using 4 ss by simp
    show "2 * length (accounts \<lparr>total = py_add (total cur) t,
            accounts = accounts cur @ [\<lparr>entry_id = i, entry_name = n, entry_total = t\<rparr>],
            services = sv\<rparr>) \<le> ?k"
      using na by simp
    show "2 * length (services \<lparr>total = py_add (total cur) t,
            accounts = accounts cur @ [\<lparr>entry_id = i, entry_name = n, entry_total = t\<rparr>],
            services = sv\<rparr>) \<le> ?k"
      using 5 by simp
  qed
qed

lemma rounding_steps_Cons:
  "rounding_steps (p # ps) = 2 + 2 * length (costs (snd p)) + rounding_steps ps"
  by (simp add: rounding_steps_def)

lemma unit_record_total_Cons:
  "unit_record_total bu (p # ps) =
     (if business_unit (snd p) = bu then sum_list (map amount_val (costs (snd p))) else 0)
       + unit_record_total bu ps"
  by (simp add: unit_record_total_def)

text \<open>
  The invariant of the outer loop: the aggregate of every unit is near the exact sum
  \<open>S bu\<close> of the amounts of its accounts, and the keys of the dict are distinct.
\<close>

lemma aggregate_loop_near:
  assumes "nonneg_amounts ps" and "\<forall>bu. unit_near k (lookup_aggregate agg bu) (S bu)"
    and "distinct (map fst agg)"
  shows "\<exists>agg'. aggregate_loop agg ps = Inr agg' \<and> distinct (map fst agg')
           \<and> (\<forall>bu. unit_near (k + rounding_steps ps) (lookup_aggregate agg' bu)
                  (S bu + unit_record_total bu ps))"
  using assms
proof (induction ps arbitrary: agg k S)
  case Nil
  then show ?case
    by (simp add: rounding_steps_def unit_record_total_def)
next
  case (Cons p ps)
  let ?bu = "business_unit (snd p)"
  let ?cs = "costs (snd p)"
  let ?cur = "lookup_aggregate agg ?bu"
  let ?k = "k + 2 + 2 * length ?cs"
  let ?S = "\<lambda>bu. S bu + (if ?bu = bu then sum_list (map amount_val ?cs) else 0)"
  from Cons.prems(1) have cs: "good_records ?cs" and ps: "nonneg_amounts ps"
    by (simp_all add: nonneg_amounts_def)
  from aggregate_account_Inr [OF cs, of agg]
  obtain t sv where t: "sum_amounts (NInt 0) ?cs = Inr t"
    and sv: "add_services (services ?cur) ?cs = Inr sv"
    and a: "aggregate_account agg p =
        Inr (AList.update ?bu
              \<lparr>total = py_add (total ?cur) t,
               accounts = accounts ?cur @
                 [\<lparr>entry_id = fst p, entry_name = acct_name (snd p), entry_total = t\<rparr>],
               services = sv\<rparr> agg)"
    by blast
  define agg1 where "agg1 = AList.update ?bu
              \<lparr>total = py_add (total ?cur) t,
               accounts = accounts ?cur @
                 [\<lparr>entry_id = fst p, entry_name = acct_name (snd p), entry_total = t\<rparr>],
               services = sv\<rparr> agg"
  have d1: "distinct (map fst agg1)"
    unfolding agg1_def using Cons.prems(3) by (rule distinct_update)
  have inv1: "\<forall>bu. unit_near ?k (lookup_aggregate agg1 bu) (?S bu)"
  proof
    fix bu
    show "unit_near ?k (lookup_aggregate agg1 bu) (?S bu)"
    proof (cases "bu = ?bu")
      case True
      have "unit_near k ?cur (S ?bu)"
        using Cons.prems(2) by blast
      from unit_near_step [OF this cs t sv] True show ?thesis
        by (simp add: agg1_def lookup_aggregate_update)
    next
      case False
      have "unit_near k (lookup_aggregate agg bu) (S bu)"
        using Cons.prems(2) by blast
      then have "unit_near ?k (lookup_aggregate agg bu) (S bu)"
        by (rule unit_near_mono) simp
      with False show ?thesis
        by (simp add: agg1_def lookup_aggregate_update)
    qed
  qed
  from Cons.IH [OF ps inv1 d1]
  obtain agg' where l: "aggregate_loop agg1 ps = Inr agg'" and d: "distinct (map fst agg')"
    and inv: "\<forall>bu. unit_near (?k + rounding_steps ps) (lookup_aggregate agg' bu)
                  (?S bu + unit_record_total bu ps)"
    by blast
  have "aggregate_loop agg (p # ps) = Inr agg'"
    using a l by (simp add: agg1_def)
  moreover have "unit_near (k + rounding_steps (p # ps)) (lookup_aggregate agg' bu)
      (S bu + unit_record_total bu (p # ps))" for bu
  proof -
    have "?k + rounding_steps ps = k + rounding_steps (p # ps)"
      by (simp add: rounding_steps_Cons)
    moreover have "?S bu + unit_record_total bu ps = S bu + unit_record_total bu (p # ps)"
      by (simp add: unit_record_total_Cons)
    ultimately show ?thesis
      using inv by metis
  qed
  ultimately show ?case
    using d by blast
qed

lemma aggregate_units_near:
  assumes "nonneg_amounts all_costs"
  shows "\<exists>agg. aggregate_by_business_unit all_costs = Inr agg \<and> distinct (map fst agg)
           \<and> (\<forall>bu. unit_near (rounding_steps all_costs) (lookup_aggregate agg bu)
                  (unit_record_total bu all_costs))"
proof -
  have "\<forall>bu. unit_near 0 (lookup_aggregate [] bu) ((\<lambda>bu. 0) bu)"
    by (simp add: lookup_aggregate_def unit_near_empty)
  from aggregate_loop_near [OF assms this] show ?thesis
    by (simp add: aggregate_by_business_unit_def)
qed

lemma lookup_aggregate_member:
  assumes "distinct (map fst agg)" and "(bu, a) \<in> set agg"
  shows "lookup_aggregate agg bu = a"
  using assms by (simp add: lookup_aggregate_def)



text \<open>\<open>sum\<close> over numbers that are near their exact values.\<close>

lemma foldl_py_add_near:
  assumes "list_all2 (\<lambda>p s. near k (nval (f p)) s \<and> 0 \<le> s) ps ss"
    and "near (k + m) (nval acc) a" and "0 \<le> a"
  shows "near (k + m + 2 * length ps) (nval (foldl py_add acc (map f ps))) (a + sum_list ss)"
  using assms
proof (induction ps ss arbitrary: acc a m rule: list_all2_induct)
  case Nil
  then show ?case
    by simp
next
  case (Cons p ps s ss)
  have "near (k + m) (nval (f p)) s"
    using near_mono [of s k "k + m"] Cons.hyps(1) by simp
  then have "near (k + m + 2) (nval (py_add acc (f p))) (a + s)"
    using Cons.prems(2) Cons.hyps(1) Cons.prems(1) by (intro py_add_near) simp_all
  then have "near (k + (m + 2)) (nval (py_add acc (f p))) (a + s)"
    by (simp add: add.assoc)
  moreover have "0 \<le> a + s"
    using Cons.prems(2) Cons.hyps(1) by simp
  ultimately have "near (k + (m + 2) + 2 * length ps)
      (nval (foldl py_add (py_add acc (f p)) (map f ps))) (a + s + sum_list ss)"
    by (rule Cons.IH)
  then show ?case
    by (simp add: add.assoc)
qed


text \<open>
  C1, as amended. The total of an aggregate is not always within 0.01 of the two sums (the
  counterexample is among the examples below): it is when the amounts are not negative and
  the number of roundings \<open>K\<close>, two for every account and two for every record of the run,
  and the exact sum \<open>S\<close> of the amounts of the unit satisfy \<open>2 * K \<le> 2 ^ 52\<close> and
  \<open>600 * K * S \<le> 2 ^ 53\<close>. This holds of the exact sums of the stored account totals and
  of the stored service subtotals, and of the two sums as \<open>validate_aggregation\<close> adds
  them up.
\<close>

theorem aggregate_totals_within_tolerance:
  assumes "aggregate_by_business_unit all_costs = Inr agg" and "(bu, a) \<in> set agg"
    and "nonneg_amounts all_costs"
    and "2 * rounding_steps all_costs \<le> 2 ^ 52"
    and "600 * of_nat (rounding_steps all_costs) * unit_record_total bu all_costs \<le> 2 ^ 53"
  shows "\<bar>nval (total a) - exact_account_sum a\<bar> \<le> 1 / 100
       \<and> \<bar>nval (total a) - exact_service_sum a\<bar> \<le> 1 / 100
       \<and> \<bar>nval (total a) - nval (account_sum a)\<bar> \<le> 1 / 100
       \<and> \<bar>nval (total a) - nval (service_sum a)\<bar> \<le> 1 / 100"
proof -
  let ?K = "rounding_steps all_costs"
  let ?S = "unit_record_total bu all_costs"
  from aggregate_units_near [OF assms(3)] assms(1)
  have d: "distinct (map fst agg)" and "unit_near ?K (lookup_aggregate agg bu) ?S"
    by auto
  then have "unit_near ?K a ?S"
    using lookup_aggregate_member [OF d assms(2)] by simp
  from unit_nearD [OF this] obtain xs ss where S: "0 \<le> ?S"
    and t: "near ?K (nval (total a)) ?S"
    and ac: "list_all2 (\<lambda>e x. near ?K (nval (entry_total e)) x \<and> 0 \<le> x) (accounts a) xs"
    and xs: "sum_list xs = ?S"
    and sv: "list_all2 (\<lambda>p x. near ?K (nval (snd p)) x \<and> 0 \<le> x) (services a) ss"
    and ss: "sum_list ss = ?S"
    and na: "2 * length (accounts a) \<le> ?K" and ns: "2 * length (services a) \<le> ?K"
    by blast
  have up: "near (2 * ?K) v ?S" if "near k v ?S" "k \<le> 2 * ?K" for k v
    using S that(2) that(1) by (rule near_mono)
  have t2: "near (2 * ?K) (nval (total a)) ?S"
    using t by (rule up) simp
  have "near ?K (exact_account_sum a) ?S"
    using near_values_sum [OF ac] xs by (simp add: exact_account_sum_def)
  then have e2: "near (2 * ?K) (exact_account_sum a) ?S"
    by (rule up) simp
  have "near ?K (exact_service_sum a) ?S"
    using near_values_sum [OF sv] ss by (simp add: exact_service_sum_def)
  then have v2: "near (2 * ?K) (exact_service_sum a) ?S"
    by (rule up) simp
  have "near (?K + 0 + 2 * length (accounts a))
      (nval (foldl py_add (NInt 0) (map entry_total (accounts a)))) (0 + sum_list xs)"
    using ac by (rule foldl_py_add_near) (simp_all add: near_zero)
  then have "near (?K + 2 * length (accounts a)) (nval (account_sum a)) ?S"
    using xs by (simp add: account_sum_def py_sum_def)
  then have a2: "near (2 * ?K) (nval (account_sum a)) ?S"
    by (rule up) (use na in simp)
  have "near (?K + 0 + 2 * length (services a))
      (nval (foldl py_add (NInt 0) (map snd (services a)))) (0 + sum_list ss)"
    using sv by (rule foldl_py_add_near) (simp_all add: near_zero)
  then have "near (?K + 2 * length (services a)) (nval (service_sum a)) ?S"
    using ss by (simp add: service_sum_def py_sum_def)
  then have s2: "near (2 * ?K) (nval (service_sum a)) ?S"
    by (rule up) (use ns in simp)
  have b: "3 * of_nat (2 * ?K) / 2 ^ 53 * ?S \<le> 1 / 100"
    using assms(5) by (simp add: field_simps)
  have diff: "\<bar>nval (total a) - w\<bar> \<le> 1 / 100" if "near (2 * ?K) w ?S" for w
  proof -
    have "\<bar>nval (total a) - w\<bar> \<le> 3 * of_nat (2 * ?K) / 2 ^ 53 * ?S"
      using S assms(4) t2 that by (rule near_diff_bound)
    with b show ?thesis
      by (rule order_trans [rotated])
  qed
  from diff [OF e2] diff [OF v2] diff [OF a2] diff [OF s2] show ?thesis
    by blast
qed


subsection \<open>The examples\<close>

lemma example_aggregated:
  "aggregate_by_business_unit example_costs = Inr [(''Engineering'', example_aggregate)]"
  by code_simp

lemma example_nonneg: "nonneg_amounts example_costs"
  by code_simp

lemma example_steps: "rounding_steps example_costs = 10" "length example_costs = 2"
  by (simp_all add: rounding_steps_def example_costs_def)

lemma example_unit_total: "unit_record_total ''Engineering'' example_costs = 10000"
  by code_simp

theorem aggregate_totals_within_tolerance_witness:
  "aggregate_by_business_unit example_costs = Inr [(''Engineering'', example_aggregate)]
   \<and> (''Engineering'', example_aggregate) \<in> set [(''Engineering'', example_aggregate)]
   \<and> nonneg_amounts example_costs
   \<and> 2 * rounding_steps example_costs \<le> 2 ^ 52
   \<and> 600 * of_nat (rounding_steps example_costs) * unit_record_total ''Engineering'' example_costs
       \<le> 2 ^ 53
   \<and> \<bar>nval (total example_aggregate) - exact_account_sum example_aggregate\<bar> \<le> 1 / 100
   \<and> \<bar>nval (total example_aggregate) - exact_service_sum example_aggregate\<bar> \<le> 1 / 100
   \<and> \<bar>nval (total example_aggregate) - nval (account_sum example_aggregate)\<bar> \<le> 1 / 100
   \<and> \<bar>nval (total example_aggregate) - nval (service_sum example_aggregate)\<bar> \<le> 1 / 100"
proof -
  have m: "(''Engineering'', example_aggregate) \<in> set [(''Engineering'', example_aggregate)]"
    by simp
  have k: "2 * rounding_steps example_costs \<le> 2 ^ 52"
    by (simp add: example_steps)
  have b: "600 * of_nat (rounding_steps example_costs)
      * unit_record_total ''Engineering'' example_costs \<le> 2 ^ 53"
    by (simp add: example_steps example_unit_total)
  from aggregate_totals_within_tolerance [OF example_aggregated m example_nonneg k b]
    example_aggregated m example_nonneg k b
  show ?thesis
    by blast
qed


text \<open>
  C1, the counterexample. Three accounts of one unit, with one record each: 1e16 for EC2,
  1.0 and 1.0 for S3. The total is \<open>(1e16 + 1.0) + 1.0\<close>, which is 1e16 after each
  rounding, while the subtotal of S3 is 2.0: the total differs by 2 from the sum of the
  service subtotals, and from the sum of the account totals, and \<open>validate_aggregation\<close>
  reports the mismatch of the service sum on this output of the aggregator.
\<close>

theorem large_amounts_break_tolerance:
  "aggregate_by_business_unit large_costs = Inr [(''Engineering'', large_aggregate)]
   \<and> nval (total large_aggregate) = 10 ^ 16
   \<and> exact_service_sum large_aggregate = 10 ^ 16 + 2
   \<and> nval (service_sum large_aggregate) = 10 ^ 16 + 2
   \<and> exact_account_sum large_aggregate = 10 ^ 16 + 2
   \<and> \<bar>nval (total large_aggregate) - exact_service_sum large_aggregate\<bar> > 1 / 100
   \<and> \<bar>nval (total large_aggregate) - exact_account_sum large_aggregate\<bar> > 1 / 100
   \<and> ServiceSumMismatch ''Engineering'' (service_sum large_aggregate) (total large_aggregate)
       \<in> set (issues (validate_aggregation [(''Engineering'', large_aggregate)]))
   \<and> status (validate_aggregation [(''Engineering'', large_aggregate)]) = FAIL"
  by code_simp


section \<open>Properties of the reconciler\<close>

lemma reconcile_unit_Inr:
  "\<exists>results'. reconcile_unit bs results p = Inr results'
       \<and> units results' = AList.update (fst p) (unit_entry bs p) (units results)"
  by (simp add: reconcile_unit_def unit_entry_def Let_def py_div_def)

lemma reconcile_loop_Inr:
  "\<exists>results'. reconcile_loop bs results ps = Inr results'
       \<and> units results' = fold (\<lambda>p. AList.update (fst p) (unit_entry bs p)) ps (units results)"
proof (induction ps arbitrary: results)
  case Nil
  then show ?case by simp
next
  case (Cons p ps)
  obtain r1 where r1: "reconcile_unit bs results p = Inr r1"
    and u1: "units r1 = AList.update (fst p) (unit_entry bs p) (units results)"
    using reconcile_unit_Inr by blast
  from Cons [of r1] r1 u1 show ?case by simp
qed

lemma map_of_fold_update:
  "distinct (map fst ps) \<Longrightarrow> (k, v) \<in> set ps \<Longrightarrow>
     map_of (fold (\<lambda>p. AList.update (fst p) (f p)) ps us) k = Some (f (k, v))"
proof (induction ps arbitrary: us)
  case Nil
  then show ?case by simp
next
  case (Cons p ps)
  show ?case
  proof (cases "p = (k, v)")
    case True
    with Cons.prems have notin: "k \<notin> fst ` set ps" by auto
    have keep: "map_of (fold (\<lambda>p. AList.update (fst p) (f p)) ps us') k = map_of us' k" for us'
      using notin
    proof (induction ps arbitrary: us')
      case Nil
      then show ?case by simp
    next
      case (Cons q qs)
      then show ?case by (auto simp: AList.update_conv')
    qed
    show ?thesis using True by (simp add: keep AList.update_conv')
  next
    case False
    with Cons.prems have "(k, v) \<in> set ps" "distinct (map fst ps)" by auto
    from Cons.IH [OF this(2) this(1)] show ?thesis by simp
  qed
qed

lemma reconcile_units:
  assumes "distinct (map fst agg)" and "(bu, a) \<in> set agg"
  shows "\<exists>res. reconcile bs agg m = Inr res \<and> map_of (units res) bu = Some (unit_entry bs (bu, a))"
proof -
  define r0 where "r0 = \<lparr>month = m, units = [], total_variances = 0, total_overrun = NInt 0,
    total_underrun = NInt 0\<rparr>"
  obtain res where "reconcile_loop bs r0 agg = Inr res"
    and "units res = fold (\<lambda>p. AList.update (fst p) (unit_entry bs p)) agg (units r0)"
    using reconcile_loop_Inr [of bs r0 agg] by blast
  then have "reconcile bs agg m = Inr res"
    and "units res = fold (\<lambda>p. AList.update (fst p) (unit_entry bs p)) agg []"
    by (simp_all add: reconcile_def r0_def)
  with map_of_fold_update [OF assms, of "unit_entry bs" "[]"] show ?thesis by simp
qed

text \<open>
  C9. The division that computes \<open>variance_pct\<close> never has a zero divisor. \<open>py_div\<close>
  raises \<open>ZeroDivisionError\<close> for a zero divisor and \<open>reconcile\<close> passes the exception
  on; it is the only exception of the model of \<open>reconcile\<close>. For every budget
  configuration and every aggregate \<open>reconcile\<close> returns a result: a target that is zero
  or absent takes the \<open>NO_BUDGET\<close> branch before the division.
\<close>

theorem reconcile_no_zero_division:
  "\<exists>res. reconcile bs aggregated_costs m = Inr res"
  unfolding reconcile_def using reconcile_loop_Inr by blast

text \<open>
  C2, as amended. For every business unit of the reconciler's input the status is a function
  of \<open>alert_threshold_pct\<close> (10 when not configured) and of the float that the code
  computes for \<open>(actual - target) / target * 100\<close>, each operation rounded and the result
  not yet rounded to one decimal: \<open>OVERRUN\<close> above the threshold, \<open>UNDERRUN\<close> below its
  negation, \<open>ON_TRACK\<close> otherwise, the comparisons being strict; a target that is absent
  or zero gives \<open>NO_BUDGET\<close> whatever the actual spend. The status is not a function of
  the \<open>variance_pct\<close> that the record stores, nor of the exact quotient (the counterexample
  is among the examples below). The aggregate is a dict, so its keys are distinct.
\<close>

theorem status_follows_computed_variance_pct:
  assumes "distinct (map fst agg)" and "(bu, a) \<in> set agg"
  shows "\<exists>res u. reconcile bs agg m = Inr res \<and> map_of (units res) bu = Some u
           \<and> unit_status u =
               (let t = budget_target_of (budget_config_of bs bu);
                    th = alert_threshold_of (budget_config_of bs bu)
                in if nval t = 0 then NO_BUDGET
                   else spec_status (py_mul (quotient (py_sub (total a) t) t) (NInt 100)) th)
           \<and> alert_threshold_of (budget_config_of bs bu) =
               (case map_of bs bu of None \<Rightarrow> NInt 10
                | Some c \<Rightarrow> (case alert_threshold_pct c of None \<Rightarrow> NInt 10 | Some th \<Rightarrow> th))
           \<and> budget_target_of (budget_config_of bs bu) =
               (case map_of bs bu of None \<Rightarrow> NInt 0
                | Some c \<Rightarrow> (case monthly_target c of None \<Rightarrow> NInt 0 | Some t \<Rightarrow> t))"
proof -
  from reconcile_units [OF assms, of bs m]
  obtain res where r: "reconcile bs agg m = Inr res"
    and u: "map_of (units res) bu = Some (unit_entry bs (bu, a))" by blast
  have st: "unit_status (unit_entry bs (bu, a)) =
               (let t = budget_target_of (budget_config_of bs bu);
                    th = alert_threshold_of (budget_config_of bs bu)
                in if nval t = 0 then NO_BUDGET
                   else spec_status (py_mul (quotient (py_sub (total a) t) t) (NInt 100)) th)"
    by (simp add: unit_entry_def Let_def no_budget_unit_def budget_unit_def spec_status_def)
  have th: "alert_threshold_of (budget_config_of bs bu) =
               (case map_of bs bu of None \<Rightarrow> NInt 10
                | Some c \<Rightarrow> (case alert_threshold_pct c of None \<Rightarrow> NInt 10 | Some th \<Rightarrow> th))"
    by (simp add: alert_threshold_of_def budget_config_of_def split: option.splits)
  have t: "budget_target_of (budget_config_of bs bu) =
               (case map_of bs bu of None \<Rightarrow> NInt 0
                | Some c \<Rightarrow> (case monthly_target c of None \<Rightarrow> NInt 0 | Some t \<Rightarrow> t))"
    by (simp add: budget_target_of_def budget_config_of_def split: option.splits)
  from r u st th t show ?thesis by blast
qed

lemma sorted_reverse_mset: "mset (sorted_reverse key xs) = mset xs"
  by (simp add: sorted_reverse_def)

lemma sorted_reverse_descending:
  "sorted_wrt (\<lambda>x y. key x \<ge> key y) (sorted_reverse key xs)"
proof -
  have "sorted (map key (sort_key key (rev xs)))" by simp
  then have "sorted_wrt (\<lambda>x y. key x \<le> key y) (sort_key key (rev xs))"
    by (simp add: sorted_map)
  then show ?thesis
    by (simp add: sorted_reverse_def sorted_wrt_rev)
qed

lemma sorted_reverse_stable:
  "filter (\<lambda>x. key x = k) (sorted_reverse key xs) = filter (\<lambda>x. key x = k) xs"
proof -
  have "filter (\<lambda>x. key x = k) (sorted_reverse key xs)
      = rev (filter (\<lambda>x. key x = k) (sort_key key (rev xs)))"
    by (simp add: sorted_reverse_def rev_filter)
  also have "\<dots> = rev (filter (\<lambda>x. key x = k) (rev xs))"
    by (simp only: sort_key_stable)
  also have "\<dots> = filter (\<lambda>x. key x = k) xs"
    by (simp add: rev_filter)
  finally show ?thesis .
qed

lemma rounded_descending:
  assumes "sorted_wrt (\<lambda>x y. nval (snd x) \<ge> nval (snd y)) ys"
  shows "sorted_wrt (\<lambda>x y. nval (snd x) \<ge> nval (snd y))
           (map (\<lambda>sa. (fst sa, py_round (snd sa) n)) ys)"
proof -
  have "sorted_wrt (\<lambda>x y. nval (py_round (snd x) n) \<ge> nval (py_round (snd y) n)) ys"
    using assms by (rule sorted_wrt_mono_rel [rotated]) (simp add: py_round_mono)
  then show ?thesis by (simp add: sorted_wrt_map)
qed

text \<open>
  C6. For every business unit with a budget that is not zero, \<open>top_cost_drivers\<close> is made
  of the first five of the unit's services in descending order of amount, the amounts rounded
  to two decimals: the sorted list \<open>ys\<close> is a permutation of the services, descending,
  and services of equal amount keep the order they have in the dict; the stored list is
  descending and has at most five entries.
\<close>

theorem top_cost_drivers_sorted:
  assumes "distinct (map fst agg)" and "(bu, a) \<in> set agg"
    and "nval (budget_target_of (budget_config_of bs bu)) \<noteq> 0"
  shows "\<exists>res u ys. reconcile bs agg m = Inr res \<and> map_of (units res) bu = Some u
           \<and> top_cost_drivers u = Some (map (\<lambda>sa. (fst sa, py_round (snd sa) 2)) (take 5 ys))
           \<and> mset ys = mset (services a)
           \<and> sorted_wrt (\<lambda>x y. nval (snd x) \<ge> nval (snd y)) ys
           \<and> (\<forall>k. filter (\<lambda>x. nval (snd x) = k) ys
                  = filter (\<lambda>x. nval (snd x) = k) (services a))
           \<and> sorted_wrt (\<lambda>x y. nval (snd x) \<ge> nval (snd y)) (the (top_cost_drivers u))
           \<and> length (the (top_cost_drivers u)) \<le> 5"
proof -
  from reconcile_units [OF assms(1,2), of bs m]
  obtain res where r: "reconcile bs agg m = Inr res"
    and u: "map_of (units res) bu = Some (unit_entry bs (bu, a))" by blast
  define ys where "ys = sorted_reverse (\<lambda>x. nval (snd x)) (services a)"
  have d: "top_cost_drivers (unit_entry bs (bu, a))
             = Some (map (\<lambda>sa. (fst sa, py_round (snd sa) 2)) (take 5 ys))"
    using assms(3)
    by (simp add: unit_entry_def Let_def budget_unit_def top_services_def ys_def)
  have m: "mset ys = mset (services a)"
    unfolding ys_def by (rule sorted_reverse_mset)
  have s: "sorted_wrt (\<lambda>x y. nval (snd x) \<ge> nval (snd y)) ys"
    unfolding ys_def by (rule sorted_reverse_descending)
  have st: "\<forall>k. filter (\<lambda>x. nval (snd x) = k) ys = filter (\<lambda>x. nval (snd x) = k) (services a)"
    unfolding ys_def by (simp add: sorted_reverse_stable)
  have "sorted_wrt (\<lambda>x y. nval (snd x) \<ge> nval (snd y)) (take 5 ys)"
    using s by (rule sorted_wrt_take)
  then have s2: "sorted_wrt (\<lambda>x y. nval (snd x) \<ge> nval (snd y))
      (the (top_cost_drivers (unit_entry bs (bu, a))))"
    unfolding d by (simp add: rounded_descending)
  have l: "length (the (top_cost_drivers (unit_entry bs (bu, a)))) \<le> 5"
    unfolding d by simp
  from r u d m s st s2 l show ?thesis by blast
qed

lemma small_aggregated:
  "aggregate_by_business_unit small_budget_costs = Inr [(''Sandbox'', small_budget_aggregate)]"
  by code_simp

lemma small_reconciled:
  "reconcile small_budgets [(''Sandbox'', small_budget_aggregate)] ''2025-11'' =
     Inr \<lparr>month = ''2025-11'', units = [(''Sandbox'', small_budget_unit)],
          total_variances = 0, total_overrun = NInt 0, total_underrun = NInt 0\<rparr>"
  by code_simp

text \<open>
  C3. The stored fields of a reconciliation record are rounded one by one: \<open>actual\<close> and
  \<open>variance\<close> to two decimals, \<open>variance_pct\<close> to one. For the unit with the small budget
  the stored \<open>variance_pct\<close> is 0.2 while the stored variance divided by the budget times
  100 is 0, as is the percentage recomputed from the stored actual: the two differ by more
  than 0.1, and \<open>validate_reconciliation\<close> reports the mismatch and fails.
\<close>

theorem stored_variance_pct_off_for_small_budget:
  "aggregate_by_business_unit small_budget_costs = Inr [(''Sandbox'', small_budget_aggregate)]
   \<and> reconcile small_budgets [(''Sandbox'', small_budget_aggregate)] ''2025-11'' =
       Inr \<lparr>month = ''2025-11'', units = [(''Sandbox'', small_budget_unit)],
            total_variances = 0, total_overrun = NInt 0, total_underrun = NInt 0\<rparr>
   \<and> budget small_budget_unit = Some (NInt 2)
   \<and> variance small_budget_unit = Some (NFloat (double_of 0))
   \<and> variance_pct small_budget_unit = Some (NFloat (double_of (1 / 5)))
   \<and> \<bar>dval (double_of (1 / 5)) - (dval (double_of 0) / 2 * 100)\<bar> > 1 / 10
   \<and> \<bar>dval (double_of (1 / 5)) - ((nval (actual small_budget_unit) - 2) / 2 * 100)\<bar> > 1 / 10
   \<and> issues (validate_reconciliation
         \<lparr>month = ''2025-11'', units = [(''Sandbox'', small_budget_unit)],
          total_variances = 0, total_overrun = NInt 0, total_underrun = NInt 0\<rparr>)
       = [VariancePctMismatch ''Sandbox'']
   \<and> status (validate_reconciliation
         \<lparr>month = ''2025-11'', units = [(''Sandbox'', small_budget_unit)],
          total_variances = 0, total_overrun = NInt 0, total_underrun = NInt 0\<rparr>) = FAIL"
  by code_simp

subsection \<open>The examples\<close>

lemma example_keys:
  "distinct (map fst example_aggregated_costs)"
  "(''Engineering'', example_aggregate) \<in> set example_aggregated_costs"
  by (simp_all add: example_aggregated_costs_def)

lemma engineering_variance_pct:
  "10 < fl (fl (fl (fl 10000 - fl 8000) / fl 8000) * fl 100)"
  by code_simp

theorem status_follows_computed_variance_pct_witness:
  "distinct (map fst example_aggregated_costs)
   \<and> (''Engineering'', example_aggregate) \<in> set example_aggregated_costs
   \<and> (\<exists>res u. reconcile example_budgets example_aggregated_costs ''2025-11'' = Inr res
         \<and> map_of (units res) ''Engineering'' = Some u \<and> unit_status u = OVERRUN)"
  using status_follows_computed_variance_pct [OF example_keys, of example_budgets "''2025-11''"]
    example_keys
  by (simp add: example_budgets_def example_aggregate_def budget_config_of_def
      budget_target_of_def alert_threshold_of_def spec_status_def engineering_variance_pct)

lemma example_sandbox_keys:
  "(''Sandbox'', snd (example_aggregated_costs ! 1)) \<in> set example_aggregated_costs"
  "nval (budget_target_of (budget_config_of example_budgets ''Sandbox'')) \<noteq> 0"
  by (simp_all add: example_aggregated_costs_def example_budgets_def budget_config_of_def
      budget_target_of_def)

theorem top_cost_drivers_sorted_witness:
  "distinct (map fst example_aggregated_costs)
   \<and> (''Sandbox'', snd (example_aggregated_costs ! 1)) \<in> set example_aggregated_costs
   \<and> nval (budget_target_of (budget_config_of example_budgets ''Sandbox'')) \<noteq> 0
   \<and> (\<exists>res u. reconcile example_budgets example_aggregated_costs ''2025-11'' = Inr res
         \<and> map_of (units res) ''Sandbox'' = Some u
         \<and> sorted_wrt (\<lambda>x y. nval (snd x) \<ge> nval (snd y)) (the (top_cost_drivers u))
         \<and> length (the (top_cost_drivers u)) \<le> 5)"
  using top_cost_drivers_sorted [OF example_keys(1) example_sandbox_keys,
      of "''2025-11''"] example_keys(1) example_sandbox_keys
  by blast

text \<open>
  C2, the counterexample. Alpha and Beta have the budget 100 and the threshold 7. Alpha has
  spent 107: the variance is 7, the quotient \<open>7 / 100\<close> is the float 0.07 and
  \<open>0.07 * 100\<close> is the float 7.000000000000001, above the threshold, although the exact
  percentage is 7, which is not. Beta has spent 106.98 and is on track. Both records store
  \<open>variance_pct = 7.0\<close> and \<open>alert_threshold_pct = 7\<close>, with different statuses.
\<close>

theorem status_differs_for_equal_stored_variance_pct:
  "reconcile threshold_budgets threshold_aggregated ''2025-11'' =
     Inr \<lparr>month = ''2025-11'', units = [(''Alpha'', alpha_unit), (''Beta'', beta_unit)],
          total_variances = 1, total_overrun = NInt 7, total_underrun = NInt 0\<rparr>
   \<and> variance_pct alpha_unit = variance_pct beta_unit
   \<and> unit_alert_threshold_pct alpha_unit = unit_alert_threshold_pct beta_unit
   \<and> unit_status alpha_unit = OVERRUN
   \<and> unit_status beta_unit = ON_TRACK
   \<and> \<not> ((107 - 100) / 100 * 100 > (7 :: rat))"
  by code_simp

text \<open>
  The run of the reconciler on the examples of the specification: Engineering, 10000 against
  8000, is 25 percent over and counted in \<open>total_overrun\<close>; Sandbox, 5200 against 5000,
  is 4 percent over and on track, and its seven services give five cost drivers with the ties
  in the order of the dict; Unassigned has no budget.
\<close>

lemma example_reconciled:
  "(case reconcile example_budgets example_aggregated_costs ''2025-11'' of
      Inl e \<Rightarrow> False
    | Inr res \<Rightarrow>
        map (\<lambda>p. (fst p, unit_status (snd p), variance (snd p), variance_pct (snd p)))
            (units res)
          = [(''Engineering'', OVERRUN, Some (NFloat (double_of 2000)),
                Some (NFloat (double_of 25))),
             (''Sandbox'', ON_TRACK, Some (NInt 200), Some (NFloat (double_of 4))),
             (''Unassigned'', NO_BUDGET, None, None)]
        \<and> map_of (map (\<lambda>p. (fst p, top_cost_drivers (snd p))) (units res)) ''Sandbox''
          = Some (Some [(PStr ''EC2'', NInt 2000), (PStr ''Lambda'', NInt 2000),
                        (PStr ''RDS'', NInt 500), (PStr ''EKS'', NInt 500),
                        (PStr ''S3'', NInt 100)])
        \<and> total_variances res = 1 \<and> total_overrun res = NFloat (double_of 2000)
        \<and> total_underrun res = NInt 0)"
  by code_simp

section \<open>Properties of the validator\<close>

lemma check_records_clean:
  "list_all (clean_record ok) cs \<Longrightarrow> check_records ok i cs = Inr []"
proof (induction cs arbitrary: i)
  case Nil
  then show ?case by simp
next
  case (Cons r rs)
  then have c: "clean_record ok r" and rest: "check_records ok (Suc i) rs = Inr []"
    by simp_all
  from c have "check_amount i r = []" "check_date ok i r = Inr []" "check_service i r = []"
    by (auto simp: clean_record_def check_amount_def check_date_def check_service_def
        split: option.splits pyval.splits)
  with rest show ?case by simp
qed

lemma sum_get_amounts_typed:
  "list_all typed_record cs \<Longrightarrow> \<exists>t. sum_get_amounts acc cs = Inr t"
  by (induction cs arbitrary: acc) (auto simp: typed_record_def split: option.splits)

lemma check_records_typed:
  "list_all typed_record cs \<Longrightarrow> \<exists>iss. check_records ok i cs = Inr iss"
proof (induction cs arbitrary: i)
  case Nil
  then show ?case by simp
next
  case (Cons r rs)
  then obtain rest where rest: "check_records ok (Suc i) rs = Inr rest"
    by auto
  from Cons.prems have "\<exists>ds. check_date ok i r = Inr ds"
    by (auto simp: typed_record_def check_date_def split: option.splits pyval.splits)
  with rest show ?case by auto
qed

lemma clean_typed: "clean_record ok r \<Longrightarrow> typed_record r"
  by (auto simp: clean_record_def typed_record_def split: option.splits pyval.splits)

lemma clean_all_typed:
  "list_all (clean_record ok) cs \<Longrightarrow> list_all typed_record cs"
  by (induction cs) (auto intro: clean_typed)

text \<open>
  What does hold: when every amount that is there is a number and every date that is there is
  a string, \<open>validate_cost_data\<close> returns; absent fields, negative amounts and dates that do
  not parse become issues.
\<close>

lemma validate_cost_data_returns:
  assumes "list_all typed_record cs"
  shows "\<exists>r. validate_cost_data ok fr cs pid = Inr r"
proof -
  obtain iss where i: "check_records ok 0 cs = Inr iss"
    using check_records_typed [OF assms] by blast
  obtain t where t: "sum_get_amounts (NInt 0) cs = Inr t"
    using sum_get_amounts_typed [OF assms] by blast
  show ?thesis
    by (simp add: validate_cost_data_def i t Let_def)
qed

lemma validate_cost_data_Inr:
  assumes "cs \<noteq> []" and "validate_cost_data ok fr cs pid = Inr r"
  shows "\<exists>field_issues t. check_records ok 0 cs = Inr field_issues
    \<and> sum_get_amounts (NInt 0) cs = Inr t
    \<and> issues r = field_issues @ duplicate_issues fr {} cs
    \<and> issue_count r = length (issues r)
    \<and> status r = (if issues r = [] then PASS else if length (issues r) < 3 then WARN else FAIL)
    \<and> record_count r = Some (length cs) \<and> total_amount r = Some t
    \<and> checksum r = Some (checksum_of fr cs)"
proof -
  from assms obtain field_issues where f: "check_records ok 0 cs = Inr field_issues"
    by (auto simp: validate_cost_data_def split: sum.splits)
  from assms f obtain t where t: "sum_get_amounts (NInt 0) cs = Inr t"
    by (auto simp: validate_cost_data_def Let_def split: sum.splits)
  from assms f t have "r = (mk_result
      (if field_issues @ duplicate_issues fr {} cs = [] then PASS
       else if length (field_issues @ duplicate_issues fr {} cs) < 3 then WARN else FAIL)
      (field_issues @ duplicate_issues fr {} cs))
        \<lparr>record_count := Some (length cs), total_amount := Some t,
         checksum := Some (checksum_of fr cs)\<rparr>"
    by (simp add: validate_cost_data_def Let_def)
  with f t show ?thesis
    by (simp add: mk_result_def)
qed

text \<open>
  \<open>validate_cost_data\<close> returns \<open>FAIL\<close> at once for an empty list of records. For a
  list that is not empty, whenever it returns, its status is \<open>PASS\<close> with no issue,
  \<open>WARN\<close> with one or two issues and \<open>FAIL\<close> with three or more.
\<close>

lemma status_of_returned_result:
  "validate_cost_data ok fr [] pid = Inr (mk_result FAIL [NoCostData pid])
   \<and> (cs \<noteq> [] \<longrightarrow> validate_cost_data ok fr cs pid = Inr r \<longrightarrow>
        issue_count r = length (issues r)
        \<and> status r = (if issue_count r = 0 then PASS
                      else if issue_count r = 1 \<or> issue_count r = 2 then WARN
                      else FAIL))"
proof (intro conjI impI)
  show "validate_cost_data ok fr [] pid = Inr (mk_result FAIL [NoCostData pid])"
    by (simp add: validate_cost_data_def)
next
  assume ne: "cs \<noteq> []" and v: "validate_cost_data ok fr cs pid = Inr r"
  from validate_cost_data_Inr [OF ne v] show "issue_count r = length (issues r)"
    by blast
next
  assume ne: "cs \<noteq> []" and v: "validate_cost_data ok fr cs pid = Inr r"
  from validate_cost_data_Inr [OF ne v] have c: "issue_count r = length (issues r)"
    and s: "status r = (if issues r = [] then PASS else if length (issues r) < 3 then WARN else FAIL)"
    by blast+
  have "length (issues r) < 3 \<longleftrightarrow>
      length (issues r) = 0 \<or> length (issues r) = 1 \<or> length (issues r) = 2"
    by arith
  with c s show "status r = (if issue_count r = 0 then PASS
                      else if issue_count r = 1 \<or> issue_count r = 2 then WARN
                      else FAIL)"
    by simp
qed


lemma duplicate_issues_distinct:
  "distinct (map (dup_key fr) cs) \<Longrightarrow> set (map (dup_key fr) cs) \<inter> seen = {} \<Longrightarrow>
     duplicate_issues fr seen cs = []"
  by (induction cs arbitrary: seen) auto








lemma no_duplicate_passes:
  assumes "list_all (clean_record ok) cs" and "cs \<noteq> []" and "distinct (map (dup_key fr) cs)"
  shows "\<exists>r. validate_cost_data ok fr cs pid = Inr r \<and> issues r = [] \<and> status r = PASS"
proof -
  have "list_all typed_record cs"
    using assms(1) by (rule clean_all_typed)
  then obtain r where r: "validate_cost_data ok fr cs pid = Inr r"
    using validate_cost_data_returns by blast
  from validate_cost_data_Inr [OF assms(2) r]
  obtain field_issues where f: "check_records ok 0 cs = Inr field_issues"
    and i: "issues r = field_issues @ duplicate_issues fr {} cs"
    and s: "status r = (if issues r = [] then PASS else if length (issues r) < 3 then WARN else FAIL)"
    by blast
  from f check_records_clean [OF assms(1), of 0] have "field_issues = []" by simp
  moreover have "duplicate_issues fr {} cs = []"
    using assms(3) by (intro duplicate_issues_distinct) simp_all
  ultimately have "issues r = []" using i by simp
  with r s show ?thesis by simp
qed


subsection \<open>The examples\<close>


lemma duplicated_clean:
  "list_all (clean_record example_strptime_ok) duplicated_records"
  by (simp add: duplicated_records_def clean_record_def example_strptime_ok_def)


lemma duplicated_validated:
  "validate_cost_data example_strptime_ok example_float_repr duplicated_records ''111122223333''
     = Inr duplicated_result"
proof -
  have k: "dup_key example_float_repr (duplicated_records ! 0) = ''2025-11-01|EC2|40''"
    "dup_key example_float_repr (duplicated_records ! 1) = ''2025-11-02|S3|30''"
    "dup_key example_float_repr (duplicated_records ! 2) = ''2025-11-01|EC2|40''"
    by code_simp+
  have d: "duplicate_issues example_float_repr {} duplicated_records
      = [PotentialDuplicate ''2025-11-01|EC2|40'']"
    using k by (simp add: duplicated_records_def)
  have c: "check_records example_strptime_ok 0 duplicated_records = Inr []"
    using duplicated_clean by (rule check_records_clean)
  have s: "sum_get_amounts (NInt 0) duplicated_records = Inr (NInt 110)"
    by (simp add: duplicated_records_def)
  have n: "duplicated_records \<noteq> []" "length duplicated_records = 3"
    by (simp_all add: duplicated_records_def)
  show ?thesis
    by (simp add: validate_cost_data_def c d s n mk_result_def duplicated_result_def)
qed


text \<open>
  C7. The status is not always \<open>WARN\<close> when one issue is found. For the one record with
  the amount \<open>None\<close> the field checks find one issue, "not numeric", and the duplicate
  check finds none; the sum for \<open>total_amount\<close> then adds \<open>None\<close> to a number, and
  \<open>validate_cost_data\<close> raises \<open>TypeError\<close> instead of returning a result with a
  status.
\<close>

theorem one_issue_raises_instead_of_warn:
  "null_amount_records \<noteq> []
   \<and> check_records example_strptime_ok 0 null_amount_records = Inr [AmountNotNumeric 0]
   \<and> duplicate_issues example_float_repr {} null_amount_records = []
   \<and> validate_cost_data example_strptime_ok example_float_repr null_amount_records
         ''111122223333'' = Inl TypeError"
  by (simp add: validate_cost_data_def null_amount_records_def check_date_def check_amount_def
      check_service_def example_strptime_ok_def)

text \<open>
  C5. Malformed records can make both stages raise. The amount \<open>"12.5"\<close>, a string, is
  recorded as the issue "not numeric" by the field check, and then the sum for
  \<open>total_amount\<close> adds it to a number: \<open>validate_cost_data\<close> raises \<open>TypeError\<close>. A record
  without an amount makes the aggregator raise \<open>KeyError\<close> at \<open>cost["amount"]\<close>.
\<close>

theorem malformed_records_raise:
  "validate_cost_data ok fr non_numeric_records pid = Inl TypeError
   \<and> check_amount 0 (non_numeric_records ! 0) = [AmountNotNumeric 0]
   \<and> aggregate_by_business_unit missing_amount_costs = Inl KeyError"
  by (simp add: validate_cost_data_def non_numeric_records_def check_date_def check_amount_def
      aggregate_by_business_unit_def missing_amount_costs_def aggregate_account_def
      amount_of_def split: sum.splits)



section \<open>Properties of the checksum\<close>

lemma filter_key_single:
  "distinct (map f xs) \<Longrightarrow> k \<in> set xs \<Longrightarrow> filter (\<lambda>x. f k = f x) xs = [k]"
proof (induction xs)
  case Nil
  then show ?case by simp
next
  case (Cons x xs)
  show ?case
  proof (cases "k = x")
    case True
    with Cons.prems(1) have "\<forall>y \<in> set xs. f k \<noteq> f y" by auto
    then have "filter (\<lambda>x. f k = f x) xs = []" by (simp add: filter_empty_conv)
    with True show ?thesis by simp
  next
    case False
    with Cons.prems have k: "k \<in> set xs" and d: "distinct (map f xs)" by auto
    from k have "f k \<in> f ` set xs" by simp
    with Cons.prems(1) have "f k \<noteq> f x" by auto
    with Cons.IH [OF d k] show ?thesis by simp
  qed
qed

lemma sort_key_permuted:
  assumes d: "distinct (map f xs)" and m: "mset xs = mset ys"
  shows "sort_key f xs = sort_key f ys"
proof (rule properties_for_sort_key)
  show "mset (sort_key f ys) = mset xs" using m by simp
next
  fix k assume "k \<in> set (sort_key f ys)"
  then have ky: "k \<in> set ys" by simp
  with m have kx: "k \<in> set xs" by (metis set_mset_mset)
  from m have "mset (map f xs) = mset (map f ys)" by (metis mset_map)
  with d have dy: "distinct (map f ys)" by (metis mset_eq_imp_distinct_iff)
  have "filter (\<lambda>x. f k = f x) (sort_key f ys) = sort_key f (filter (\<lambda>x. f k = f x) ys)"
    by (rule filter_sort)
  also have "\<dots> = [k]" using filter_key_single [OF dy ky] by simp
  also have "\<dots> = filter (\<lambda>x. f k = f x) xs" using filter_key_single [OF d kx] by simp
  finally show "filter (\<lambda>x. f k = f x) (sort_key f ys) = filter (\<lambda>x. f k = f x) xs" .
next
  show "sorted (map f (sort_key f ys))" by simp
qed

lemma json_dict_permuted:
  "distinct (map fst r) \<Longrightarrow> mset r = mset r' \<Longrightarrow> json_dict fr r = json_dict fr r'"
  by (simp add: json_dict_def sort_key_permuted [of fst r r'])

lemma json_dumps_permuted:
  assumes "list_all2 (\<lambda>r r'. distinct (map fst r) \<and> mset r = mset r') cs cs'"
  shows "json_dumps fr cs = json_dumps fr cs'"
proof -
  from assms have "map (json_dict fr) cs = map (json_dict fr) cs'"
    by (induction rule: list_all2_induct) (simp_all add: json_dict_permuted)
  then show ?thesis by (simp add: json_dumps_def)
qed

text \<open>The model of MD5 on the test suite of RFC 1321.\<close>

lemma md5_empty_blocks:
  "md5_blocks (map of_char []) =
     [[128, 0, 0, 0, 0, 0, 0, 0, 0, 0, 0, 0, 0, 0, 0, 0, 0, 0, 0, 0, 0, 0, 0, 0, 0, 0,
       0, 0, 0, 0, 0, 0, 0, 0, 0, 0, 0, 0, 0, 0, 0, 0, 0, 0, 0, 0, 0, 0, 0, 0, 0, 0, 0,
       0, 0, 0, 0, 0, 0, 0, 0, 0, 0, 0]]"
  by code_simp

lemma md5_empty_words1:
  "md5_words
     [128, 0, 0, 0, 0, 0, 0, 0, 0, 0, 0, 0, 0, 0, 0, 0, 0, 0, 0, 0, 0, 0, 0, 0, 0, 0,
      0, 0, 0, 0, 0, 0, 0, 0, 0, 0, 0, 0, 0, 0, 0, 0, 0, 0, 0, 0, 0, 0, 0, 0, 0, 0, 0,
      0, 0, 0, 0, 0, 0, 0, 0, 0, 0, 0] =
     [0x00000080, 0x00000000, 0x00000000, 0x00000000, 0x00000000, 0x00000000,
      0x00000000, 0x00000000, 0x00000000, 0x00000000, 0x00000000, 0x00000000,
      0x00000000, 0x00000000, 0x00000000, 0x00000000]"
  by code_simp

lemma md5_empty_block1:
  "md5_block md5_init
     [0x00000080, 0x00000000, 0x00000000, 0x00000000, 0x00000000, 0x00000000,
      0x00000000, 0x00000000, 0x00000000, 0x00000000, 0x00000000, 0x00000000,
      0x00000000, 0x00000000, 0x00000000, 0x00000000] =
     (0xd98c1dd4, 0x04b2008f, 0x980980e9, 0x7e42f8ec)"
  by code_simp

lemma md5_empty_hex:
  "concat (map hex_byte (md5_out (0xd98c1dd4, 0x04b2008f, 0x980980e9, 0x7e42f8ec))) =
     ''d41d8cd98f00b204e9800998ecf8427e''"
  by code_simp

lemma md5_empty_final:
  "md5_final (map of_char []) =
     (0xd98c1dd4, 0x04b2008f, 0x980980e9, 0x7e42f8ec)"
  unfolding md5_final_def md5_empty_blocks
  by (simp only: list.map foldl_Cons foldl_Nil md5_empty_words1 md5_empty_block1)

lemma md5_empty:
  "md5_hexdigest [] = ''d41d8cd98f00b204e9800998ecf8427e''"
  by (simp only: md5_hexdigest_def md5_empty_final md5_empty_hex)

lemma md5_abc_blocks:
  "md5_blocks (map of_char ''abc'') =
     [[97, 98, 99, 128, 0, 0, 0, 0, 0, 0, 0, 0, 0, 0, 0, 0, 0, 0, 0, 0, 0, 0, 0, 0, 0,
       0, 0, 0, 0, 0, 0, 0, 0, 0, 0, 0, 0, 0, 0, 0, 0, 0, 0, 0, 0, 0, 0, 0, 0, 0, 0, 0,
       0, 0, 0, 0, 24, 0, 0, 0, 0, 0, 0, 0]]"
  by code_simp

lemma md5_abc_words1:
  "md5_words
     [97, 98, 99, 128, 0, 0, 0, 0, 0, 0, 0, 0, 0, 0, 0, 0, 0, 0, 0, 0, 0, 0, 0, 0, 0,
      0, 0, 0, 0, 0, 0, 0, 0, 0, 0, 0, 0, 0, 0, 0, 0, 0, 0, 0, 0, 0, 0, 0, 0, 0, 0, 0,
      0, 0, 0, 0, 24, 0, 0, 0, 0, 0, 0, 0] =
     [0x80636261, 0x00000000, 0x00000000, 0x00000000, 0x00000000, 0x00000000,
      0x00000000, 0x00000000, 0x00000000, 0x00000000, 0x00000000, 0x00000000,
      0x00000000, 0x00000000, 0x00000018, 0x00000000]"
  by code_simp

lemma md5_abc_block1:
  "md5_block md5_init
     [0x80636261, 0x00000000, 0x00000000, 0x00000000, 0x00000000, 0x00000000,
      0x00000000, 0x00000000, 0x00000000, 0x00000000, 0x00000000, 0x00000000,
      0x00000000, 0x00000000, 0x00000018, 0x00000000] =
     (0x98500190, 0xb04fd23c, 0x7d3f96d6, 0x727fe128)"
  by code_simp

lemma md5_abc_hex:
  "concat (map hex_byte (md5_out (0x98500190, 0xb04fd23c, 0x7d3f96d6, 0x727fe128))) =
     ''900150983cd24fb0d6963f7d28e17f72''"
  by code_simp

lemma md5_abc_final:
  "md5_final (map of_char ''abc'') =
     (0x98500190, 0xb04fd23c, 0x7d3f96d6, 0x727fe128)"
  unfolding md5_final_def md5_abc_blocks
  by (simp only: list.map foldl_Cons foldl_Nil md5_abc_words1 md5_abc_block1)

lemma md5_abc:
  "md5_hexdigest ''abc'' = ''900150983cd24fb0d6963f7d28e17f72''"
  by (simp only: md5_hexdigest_def md5_abc_final md5_abc_hex)

text \<open>
  The serialisations of the two orders of one record set and their digests: the padded
  blocks, their words, the state after each block and the hexadecimal digest.
\<close>

lemma order_a_json:
  \<open>json_dumps example_float_repr order_a_records =
     ''[{"amount": 40, "date": "2025-11-01", "service": "EC2"}, {"amount": 30, "date": "2025-11-02", "service": "S3"}]''\<close>
  by code_simp

lemma order_a_blocks:
  \<open>md5_blocks (map of_char
     ''[{"amount": 40, "date": "2025-11-01", "service": "EC2"}, {"amount": 30, "date": "2025-11-02", "service": "S3"}]'') =
     [[91, 123, 34, 97, 109, 111, 117, 110, 116, 34, 58, 32, 52, 48, 44, 32, 34, 100,
       97, 116, 101, 34, 58, 32, 34, 50, 48, 50, 53, 45, 49, 49, 45, 48, 49, 34, 44,
       32, 34, 115, 101, 114, 118, 105, 99, 101, 34, 58, 32, 34, 69, 67, 50, 34, 125,
       44, 32, 123, 34, 97, 109, 111, 117, 110],
      [116, 34, 58, 32, 51, 48, 44, 32, 34, 100, 97, 116, 101, 34, 58, 32, 34, 50, 48,
       50, 53, 45, 49, 49, 45, 48, 50, 34, 44, 32, 34, 115, 101, 114, 118, 105, 99,
       101, 34, 58, 32, 34, 83, 51, 34, 125, 93, 128, 0, 0, 0, 0, 0, 0, 0, 0, 120, 3,
       0, 0, 0, 0, 0, 0]]\<close>
  by code_simp

lemma order_a_words1:
  "md5_words
     [91, 123, 34, 97, 109, 111, 117, 110, 116, 34, 58, 32, 52, 48, 44, 32, 34, 100,
      97, 116, 101, 34, 58, 32, 34, 50, 48, 50, 53, 45, 49, 49, 45, 48, 49, 34, 44, 32,
      34, 115, 101, 114, 118, 105, 99, 101, 34, 58, 32, 34, 69, 67, 50, 34, 125, 44,
      32, 123, 34, 97, 109, 111, 117, 110] =
     [0x61227b5b, 0x6e756f6d, 0x203a2274, 0x202c3034, 0x74616422, 0x203a2265,
      0x32303222, 0x31312d35, 0x2231302d, 0x7322202c, 0x69767265, 0x3a226563,
      0x43452220, 0x2c7d2232, 0x61227b20, 0x6e756f6d]"
  by code_simp

lemma order_a_block1:
  "md5_block md5_init
     [0x61227b5b, 0x6e756f6d, 0x203a2274, 0x202c3034, 0x74616422, 0x203a2265,
      0x32303222, 0x31312d35, 0x2231302d, 0x7322202c, 0x69767265, 0x3a226563,
      0x43452220, 0x2c7d2232, 0x61227b20, 0x6e756f6d] =
     (0x1b0e4c5a, 0xc0d17f13, 0xd1c2ca6b, 0xa8fe5415)"
  by code_simp

lemma order_a_words2:
  "md5_words
     [116, 34, 58, 32, 51, 48, 44, 32, 34, 100, 97, 116, 101, 34, 58, 32, 34, 50, 48,
      50, 53, 45, 49, 49, 45, 48, 50, 34, 44, 32, 34, 115, 101, 114, 118, 105, 99, 101,
      34, 58, 32, 34, 83, 51, 34, 125, 93, 128, 0, 0, 0, 0, 0, 0, 0, 0, 120, 3, 0, 0,
      0, 0, 0, 0] =
     [0x203a2274, 0x202c3033, 0x74616422, 0x203a2265, 0x32303222, 0x31312d35,
      0x2232302d, 0x7322202c, 0x69767265, 0x3a226563, 0x33532220, 0x805d7d22,
      0x00000000, 0x00000000, 0x00000378, 0x00000000]"
  by code_simp

lemma order_a_block2:
  "md5_block (0x1b0e4c5a, 0xc0d17f13, 0xd1c2ca6b, 0xa8fe5415)
     [0x203a2274, 0x202c3033, 0x74616422, 0x203a2265, 0x32303222, 0x31312d35,
      0x2232302d, 0x7322202c, 0x69767265, 0x3a226563, 0x33532220, 0x805d7d22,
      0x00000000, 0x00000000, 0x00000378, 0x00000000] =
     (0x667c4b45, 0x1043cd7c, 0xec4e8341, 0x700a00c5)"
  by code_simp

lemma order_a_hex:
  "concat (map hex_byte (md5_out (0x667c4b45, 0x1043cd7c, 0xec4e8341, 0x700a00c5))) =
     ''454b7c667ccd431041834eecc5000a70''"
  by code_simp

lemma order_a_final:
  \<open>md5_final (map of_char
     ''[{"amount": 40, "date": "2025-11-01", "service": "EC2"}, {"amount": 30, "date": "2025-11-02", "service": "S3"}]'') =
     (0x667c4b45, 0x1043cd7c, 0xec4e8341, 0x700a00c5)\<close>
  unfolding md5_final_def order_a_blocks
  by (simp only: list.map foldl_Cons foldl_Nil
      order_a_words1 order_a_block1 order_a_words2 order_a_block2)

lemma order_a_checksum:
  "checksum_of example_float_repr order_a_records =
     ''454b7c667ccd431041834eecc5000a70''"
  by (simp only: checksum_of_def md5_hexdigest_def order_a_json order_a_final order_a_hex)

lemma order_b_json:
  \<open>json_dumps example_float_repr order_b_records =
     ''[{"amount": 30, "date": "2025-11-02", "service": "S3"}, {"amount": 40, "date": "2025-11-01", "service": "EC2"}]''\<close>
  by code_simp

lemma order_b_blocks:
  \<open>md5_blocks (map of_char
     ''[{"amount": 30, "date": "2025-11-02", "service": "S3"}, {"amount": 40, "date": "2025-11-01", "service": "EC2"}]'') =
     [[91, 123, 34, 97, 109, 111, 117, 110, 116, 34, 58, 32, 51, 48, 44, 32, 34, 100,
       97, 116, 101, 34, 58, 32, 34, 50, 48, 50, 53, 45, 49, 49, 45, 48, 50, 34, 44,
       32, 34, 115, 101, 114, 118, 105, 99, 101, 34, 58, 32, 34, 83, 51, 34, 125, 44,
       32, 123, 34, 97, 109, 111, 117, 110, 116],
      [34, 58, 32, 52, 48, 44, 32, 34, 100, 97, 116, 101, 34, 58, 32, 34, 50, 48, 50,
       53, 45, 49, 49, 45, 48, 49, 34, 44, 32, 34, 115, 101, 114, 118, 105, 99, 101,
       34, 58, 32, 34, 69, 67, 50, 34, 125, 93, 128, 0, 0, 0, 0, 0, 0, 0, 0, 120, 3, 0,
       0, 0, 0, 0, 0]]\<close>
  by code_simp

lemma order_b_words1:
  "md5_words
     [91, 123, 34, 97, 109, 111, 117, 110, 116, 34, 58, 32, 51, 48, 44, 32, 34, 100,
      97, 116, 101, 34, 58, 32, 34, 50, 48, 50, 53, 45, 49, 49, 45, 48, 50, 34, 44, 32,
      34, 115, 101, 114, 118, 105, 99, 101, 34, 58, 32, 34, 83, 51, 34, 125, 44, 32,
      123, 34, 97, 109, 111, 117, 110, 116] =
     [0x61227b5b, 0x6e756f6d, 0x203a2274, 0x202c3033, 0x74616422, 0x203a2265,
      0x32303222, 0x31312d35, 0x2232302d, 0x7322202c, 0x69767265, 0x3a226563,
      0x33532220, 0x202c7d22, 0x6d61227b, 0x746e756f]"
  by code_simp

lemma order_b_block1:
  "md5_block md5_init
     [0x61227b5b, 0x6e756f6d, 0x203a2274, 0x202c3033, 0x74616422, 0x203a2265,
      0x32303222, 0x31312d35, 0x2232302d, 0x7322202c, 0x69767265, 0x3a226563,
      0x33532220, 0x202c7d22, 0x6d61227b, 0x746e756f] =
     (0xbc6707b8, 0x0c91a207, 0x1bb10e6d, 0x0e23e097)"
  by code_simp

lemma order_b_words2:
  "md5_words
     [34, 58, 32, 52, 48, 44, 32, 34, 100, 97, 116, 101, 34, 58, 32, 34, 50, 48, 50,
      53, 45, 49, 49, 45, 48, 49, 34, 44, 32, 34, 115, 101, 114, 118, 105, 99, 101, 34,
      58, 32, 34, 69, 67, 50, 34, 125, 93, 128, 0, 0, 0, 0, 0, 0, 0, 0, 120, 3, 0, 0,
      0, 0, 0, 0] =
     [0x34203a22, 0x22202c30, 0x65746164, 0x22203a22, 0x35323032, 0x2d31312d,
      0x2c223130, 0x65732220, 0x63697672, 0x203a2265, 0x32434522, 0x805d7d22,
      0x00000000, 0x00000000, 0x00000378, 0x00000000]"
  by code_simp

lemma order_b_block2:
  "md5_block (0xbc6707b8, 0x0c91a207, 0x1bb10e6d, 0x0e23e097)
     [0x34203a22, 0x22202c30, 0x65746164, 0x22203a22, 0x35323032, 0x2d31312d,
      0x2c223130, 0x65732220, 0x63697672, 0x203a2265, 0x32434522, 0x805d7d22,
      0x00000000, 0x00000000, 0x00000378, 0x00000000] =
     (0xcd01969e, 0x2b9efa9a, 0x1b664020, 0x52b02342)"
  by code_simp

lemma order_b_hex:
  "concat (map hex_byte (md5_out (0xcd01969e, 0x2b9efa9a, 0x1b664020, 0x52b02342))) =
     ''9e9601cd9afa9e2b2040661b4223b052''"
  by code_simp

lemma order_b_final:
  \<open>md5_final (map of_char
     ''[{"amount": 30, "date": "2025-11-02", "service": "S3"}, {"amount": 40, "date": "2025-11-01", "service": "EC2"}]'') =
     (0xcd01969e, 0x2b9efa9a, 0x1b664020, 0x52b02342)\<close>
  unfolding md5_final_def order_b_blocks
  by (simp only: list.map foldl_Cons foldl_Nil
      order_b_words1 order_b_block1 order_b_words2 order_b_block2)

lemma order_b_checksum:
  "checksum_of example_float_repr order_b_records =
     ''9e9601cd9afa9e2b2040661b4223b052''"
  by (simp only: checksum_of_def md5_hexdigest_def order_b_json order_b_final order_b_hex)

subsection \<open>The two orders of one record set\<close>

lemma order_a_validated:
  "validate_cost_data example_strptime_ok example_float_repr order_a_records ''111122223333''
     = Inr order_a_result"
proof -
  have k: "dup_key example_float_repr (order_a_records ! 0) = ''2025-11-01|EC2|40''"
    "dup_key example_float_repr (order_a_records ! 1) = ''2025-11-02|S3|30''"
    by code_simp+
  have d: "duplicate_issues example_float_repr {} order_a_records = []"
    using k by (simp add: order_a_records_def)
  have c: "check_records example_strptime_ok 0 order_a_records = Inr []"
    by (rule check_records_clean)
      (simp add: order_a_records_def clean_record_def example_strptime_ok_def)
  have s: "sum_get_amounts (NInt 0) order_a_records = Inr (NInt 70)"
    by (simp add: order_a_records_def)
  have n: "order_a_records \<noteq> []" "length order_a_records = 2"
    by (simp_all add: order_a_records_def)
  show ?thesis
    by (simp add: validate_cost_data_def c d s n mk_result_def order_a_result_def
        order_a_checksum)
qed

lemma order_b_validated:
  "validate_cost_data example_strptime_ok example_float_repr order_b_records ''111122223333''
     = Inr order_b_result"
proof -
  have k: "dup_key example_float_repr (order_b_records ! 0) = ''2025-11-02|S3|30''"
    "dup_key example_float_repr (order_b_records ! 1) = ''2025-11-01|EC2|40''"
    by code_simp+
  have d: "duplicate_issues example_float_repr {} order_b_records = []"
    using k by (simp add: order_b_records_def)
  have c: "check_records example_strptime_ok 0 order_b_records = Inr []"
    by (rule check_records_clean)
      (simp add: order_b_records_def clean_record_def example_strptime_ok_def)
  have s: "sum_get_amounts (NInt 0) order_b_records = Inr (NInt 70)"
    by (simp add: order_b_records_def)
  have n: "order_b_records \<noteq> []" "length order_b_records = 2"
    by (simp_all add: order_b_records_def)
  show ?thesis
    by (simp add: validate_cost_data_def c d s n mk_result_def order_b_result_def
        order_b_checksum)
qed

text \<open>
  C4, as stated, fails. The lists \<open>order_a_records\<close> and \<open>order_b_records\<close> are the two
  orders of one set of two records. \<open>json.dumps(..., sort_keys=True)\<close> sorts the keys inside
  each record and leaves the list in its order, so the two serialisations differ, and
  \<open>validate_cost_data\<close> returns the checksum 454b7c66... for one and 9e9601cd... for the
  other.
\<close>

theorem checksum_depends_on_record_order:
  "mset order_a_records = mset order_b_records
   \<and> validate_cost_data example_strptime_ok example_float_repr order_a_records ''111122223333''
       = Inr order_a_result
   \<and> validate_cost_data example_strptime_ok example_float_repr order_b_records ''111122223333''
       = Inr order_b_result
   \<and> checksum order_a_result = Some ''454b7c667ccd431041834eecc5000a70''
   \<and> checksum order_b_result = Some ''9e9601cd9afa9e2b2040661b4223b052''
   \<and> checksum order_a_result \<noteq> checksum order_b_result"
  using order_a_validated order_b_validated
  by (simp add: order_a_result_def order_b_result_def order_a_records_def order_b_records_def
      add.commute)

text \<open>
  C4, amended. The checksum is a function of the list of records in the order given: two
  lists that hold the same record at every position, the keys of a record in any order, get
  the identical checksum from \<open>validate_cost_data\<close>. (Two different orders of the records
  are not covered.)
\<close>

theorem checksum_independent_of_key_order:
  assumes "list_all2 (\<lambda>r r'. distinct (map fst r) \<and> mset r = mset r') cs cs'"
    and "validate_cost_data ok fr cs pid = Inr res"
    and "validate_cost_data ok fr cs' pid = Inr res'"
  shows "checksum res = checksum res'"
proof (cases "cs = []")
  case True
  with assms(1) have "cs' = []" by simp
  with True assms(2,3) show ?thesis
    by (simp add: validate_cost_data_def)
next
  case False
  with assms(1) have ne: "cs' \<noteq> []" by auto
  from validate_cost_data_Inr [OF False assms(2)]
  have a: "checksum res = Some (checksum_of fr cs)" by blast
  from validate_cost_data_Inr [OF ne assms(3)]
  have b: "checksum res' = Some (checksum_of fr cs')" by blast
  from json_dumps_permuted [OF assms(1)] have "checksum_of fr cs = checksum_of fr cs'"
    by (simp add: checksum_of_def)
  with a b show ?thesis by simp
qed

lemma order_a_rekeyed_same:
  "list_all2 (\<lambda>r r'. distinct (map fst r) \<and> mset r = mset r') order_a_records order_a_rekeyed"
  by (simp add: order_a_records_def order_a_rekeyed_def add.commute add.left_commute)

lemma order_a_rekeyed_validated:
  "validate_cost_data example_strptime_ok example_float_repr order_a_rekeyed ''111122223333''
     = Inr order_a_result"
proof -
  have k: "dup_key example_float_repr (order_a_rekeyed ! 0) = ''2025-11-01|EC2|40''"
    "dup_key example_float_repr (order_a_rekeyed ! 1) = ''2025-11-02|S3|30''"
    by code_simp+
  have d: "duplicate_issues example_float_repr {} order_a_rekeyed = []"
    using k by (simp add: order_a_rekeyed_def)
  have c: "check_records example_strptime_ok 0 order_a_rekeyed = Inr []"
    by (rule check_records_clean)
      (simp add: order_a_rekeyed_def clean_record_def example_strptime_ok_def)
  have s: "sum_get_amounts (NInt 0) order_a_rekeyed = Inr (NInt 70)"
    by (simp add: order_a_rekeyed_def)
  have n: "order_a_rekeyed \<noteq> []" "length order_a_rekeyed = 2"
    by (simp_all add: order_a_rekeyed_def)
  have "checksum_of example_float_repr order_a_rekeyed
      = checksum_of example_float_repr order_a_records"
    using json_dumps_permuted [OF order_a_rekeyed_same] by (simp add: checksum_of_def)
  then show ?thesis
    by (simp add: validate_cost_data_def c d s n mk_result_def order_a_result_def
        order_a_checksum)
qed

theorem checksum_independent_of_key_order_witness:
  "list_all2 (\<lambda>r r'. distinct (map fst r) \<and> mset r = mset r') order_a_records order_a_rekeyed
   \<and> validate_cost_data example_strptime_ok example_float_repr order_a_records ''111122223333''
       = Inr order_a_result
   \<and> validate_cost_data example_strptime_ok example_float_repr order_a_rekeyed ''111122223333''
       = Inr order_a_result
   \<and> checksum order_a_result = checksum order_a_result"
  using checksum_independent_of_key_order
      [OF order_a_rekeyed_same order_a_validated order_a_rekeyed_validated]
    order_a_rekeyed_same order_a_validated order_a_rekeyed_validated
  by simp

end
